theory Spec2Isabelle
  imports Complex_Main "HOL-Library.Multiset"
begin

section \<open>Conventions\<close>

text \<open>
  The sources are TypeScript. A JavaScript \<open>number\<close> is a double; it is modelled as the
  \<^typ>\<open>real\<close> it denotes (\<open>NaN\<close> and the infinities are outside the model), and the
  arithmetic of the source on prices, quantities, token counts, delays and expiry instants
  is rounded to a double after every operation (\<open>js_add\<close>, \<open>js_sub\<close>, \<open>js_mul\<close>,
  \<open>js_div\<close>). A counter is a \<^typ>\<open>nat\<close> and a reading of \<open>Date.now()\<close> an \<^typ>\<open>int\<close>
  of milliseconds; the circuit breaker only subtracts and compares such readings, whole
  numbers that a double holds exactly. Every function that reads the clock takes one
  argument per reading, in the order the source reads it. Objects mutated in place become
  records that are passed in and returned.
\<close>

section \<open>Double-precision arithmetic\<close>

text \<open>
  \<open>toDouble\<close> rounds a real to the nearest IEEE 754 binary64 number, ties to the even
  significand: for \<open>x\<close> with \<open>2 ^ e \<le> |x| < 2 ^ (e + 1)\<close> the doubles around \<open>x\<close> are the
  multiples of the quantum \<open>2 ^ (e - 52)\<close>, and of \<open>2 ^ (-1074)\<close> in the subnormal range.
  Overflow to infinity (from \<open>2 ^ 1024\<close> on) is outside the model. The arithmetic operators
  of the source are the exact operations followed by this rounding.
\<close>

definition roundHalfEven :: "real \<Rightarrow> int" where
  "roundHalfEven y =
     (let f = \<lfloor>y\<rfloor>; d = y - of_int f
      in if d < 1 / 2 then f else if 1 / 2 < d then f + 1 else if even f then f else f + 1)"

definition exponentOf :: "real \<Rightarrow> int" where
  "exponentOf x = \<lfloor>log 2 \<bar>x\<bar>\<rfloor>"

definition quantum :: "real \<Rightarrow> real" where
  "quantum x = 2 powi (max (exponentOf x - 52) (- 1074))"

definition toDouble :: "real \<Rightarrow> real" where
  "toDouble x = (if x = 0 then 0 else of_int (roundHalfEven (x / quantum x)) * quantum x)"

definition js_add :: "real \<Rightarrow> real \<Rightarrow> real" where
  "js_add x y = toDouble (x + y)"

definition js_sub :: "real \<Rightarrow> real \<Rightarrow> real" where
  "js_sub x y = toDouble (x - y)"

definition js_mul :: "real \<Rightarrow> real \<Rightarrow> real" where
  "js_mul x y = toDouble (x * y)"

definition js_div :: "real \<Rightarrow> real \<Rightarrow> real" where
  "js_div x y = toDouble (x / y)"

subsection \<open>Properties of the rounding\<close>

lemma two_powr_int: "(2::real) powr real_of_int n = 2 powi n"
  by (rule powr_real_of_int') simp_all

lemma exponentOf_bounds:
  assumes "x \<noteq> 0"
  shows "2 powi exponentOf x \<le> \<bar>x\<bar>" and "\<bar>x\<bar> < 2 powi (exponentOf x + 1)"
proof -
  have pos: "0 < \<bar>x\<bar>" using assms by simp
  have "\<lfloor>log 2 \<bar>x\<bar>\<rfloor> = exponentOf x" by (simp add: exponentOf_def)
  then have "2 powr real_of_int (exponentOf x) \<le> \<bar>x\<bar>
        \<and> \<bar>x\<bar> < 2 powr real_of_int (exponentOf x + 1)"
    using floor_log_eq_powr_iff [of "\<bar>x\<bar>" 2 "exponentOf x"] pos by simp
  then show "2 powi exponentOf x \<le> \<bar>x\<bar>" and "\<bar>x\<bar> < 2 powi (exponentOf x + 1)"
    unfolding two_powr_int by simp_all
qed

lemma exponentOf_eq:
  assumes "2 powi e \<le> \<bar>x\<bar>" "\<bar>x\<bar> < 2 powi (e + 1)"
  shows "exponentOf x = e"
proof -
  have pos: "0 < \<bar>x\<bar>"
    using assms(1) zero_less_power_int [of "2::real" e] by linarith
  have "2 powr real_of_int e \<le> \<bar>x\<bar> \<and> \<bar>x\<bar> < 2 powr real_of_int (e + 1)"
    unfolding two_powr_int using assms by simp
  then have "\<lfloor>log 2 \<bar>x\<bar>\<rfloor> = e"
    using floor_log_eq_powr_iff [of "\<bar>x\<bar>" 2 e] pos by simp
  then show ?thesis by (simp add: exponentOf_def)
qed

lemma exponentOf_mono:
  assumes "x \<noteq> 0" "\<bar>x\<bar> \<le> \<bar>y\<bar>"
  shows "exponentOf x \<le> exponentOf y"
proof -
  have y: "y \<noteq> 0" using assms by auto
  have "2 powi exponentOf x \<le> \<bar>x\<bar>" using assms(1) by (rule exponentOf_bounds)
  also have "\<dots> \<le> \<bar>y\<bar>" by (rule assms(2))
  also have "\<dots> < 2 powi (exponentOf y + 1)" using y by (rule exponentOf_bounds)
  finally have "(2::real) powi exponentOf x < 2 powi (exponentOf y + 1)" .
  then have "exponentOf x < exponentOf y + 1"
    by (metis linorder_not_less one_le_numeral power_int_increasing)
  then show ?thesis by simp
qed

lemma exponentOf_minus: "exponentOf (- x) = exponentOf x"
  by (simp add: exponentOf_def)

lemma quantum_pos: "0 < quantum x"
  by (simp add: quantum_def zero_less_power_int)

lemma quantum_minus: "quantum (- x) = quantum x"
  by (simp add: quantum_def exponentOf_minus)

lemma roundHalfEven_of_int: "roundHalfEven (of_int n) = n"
  by (simp add: roundHalfEven_def)

lemma roundHalfEven_ge_floor: "\<lfloor>y\<rfloor> \<le> roundHalfEven y"
  by (simp add: roundHalfEven_def Let_def)

lemma roundHalfEven_le_floor: "roundHalfEven y \<le> \<lfloor>y\<rfloor> + 1"
  by (simp add: roundHalfEven_def Let_def)

lemma roundHalfEven_mono:
  assumes "a \<le> b"
  shows "roundHalfEven a \<le> roundHalfEven b"
proof (cases "\<lfloor>a\<rfloor> = \<lfloor>b\<rfloor>")
  case True
  have "a - of_int \<lfloor>b\<rfloor> \<le> b - of_int \<lfloor>b\<rfloor>" using assms by simp
  then show ?thesis
    by (simp add: roundHalfEven_def Let_def True)
next
  case False
  have "\<lfloor>a\<rfloor> \<le> \<lfloor>b\<rfloor>" using assms by (rule floor_mono)
  then have "\<lfloor>a\<rfloor> + 1 \<le> \<lfloor>b\<rfloor>" using False by simp
  then show ?thesis
    using roundHalfEven_le_floor [of a] roundHalfEven_ge_floor [of b] by linarith
qed

lemma roundHalfEven_near:
  assumes "of_int n - 1 / 2 < y" "y < of_int n + 1 / 2"
  shows "roundHalfEven y = n"
proof -
  have "\<lfloor>y\<rfloor> = n \<or> \<lfloor>y\<rfloor> = n - 1" using assms by linarith
  then show ?thesis
  proof
    assume f: "\<lfloor>y\<rfloor> = n"
    then show ?thesis using assms by (simp add: roundHalfEven_def Let_def)
  next
    assume f: "\<lfloor>y\<rfloor> = n - 1"
    then show ?thesis using assms by (simp add: roundHalfEven_def Let_def)
  qed
qed

lemma roundHalfEven_minus: "roundHalfEven (- y) = - roundHalfEven y"
proof (cases "y = of_int \<lfloor>y\<rfloor>")
  case True
  then have "- y = of_int (- \<lfloor>y\<rfloor>)" by simp
  then have "roundHalfEven (- y) = - \<lfloor>y\<rfloor>"
    using roundHalfEven_of_int [of "- \<lfloor>y\<rfloor>"] by simp
  moreover have "roundHalfEven y = \<lfloor>y\<rfloor>"
    using roundHalfEven_of_int [of "\<lfloor>y\<rfloor>"] True by simp
  ultimately show ?thesis by simp
next
  case False
  then have lt: "of_int \<lfloor>y\<rfloor> < y" by linarith
  have f: "\<lfloor>- y\<rfloor> = - \<lfloor>y\<rfloor> - 1" using lt by linarith
  have d: "- y - of_int \<lfloor>- y\<rfloor> = 1 - (y - of_int \<lfloor>y\<rfloor>)" by (simp add: f)
  show ?thesis
    unfolding roundHalfEven_def Let_def d unfolding f by auto
qed

lemma roundHalfEven_zero: "roundHalfEven 0 = 0"
  by (simp add: roundHalfEven_def)

lemma toDouble_zero: "toDouble 0 = 0"
  by (simp add: toDouble_def)

lemma toDouble_minus: "toDouble (- x) = - toDouble x"
  by (simp add: toDouble_def quantum_minus roundHalfEven_minus)

lemma toDouble_nonneg:
  assumes "0 \<le> x"
  shows "0 \<le> toDouble x"
proof (cases "x = 0")
  case True
  then show ?thesis by (simp add: toDouble_def)
next
  case False
  have "0 \<le> x / quantum x" using assms quantum_pos [of x] by simp
  then have "roundHalfEven 0 \<le> roundHalfEven (x / quantum x)"
    by (rule roundHalfEven_mono)
  then have "0 \<le> roundHalfEven (x / quantum x)"
    by (simp only: roundHalfEven_zero)
  then show ?thesis
    using False quantum_pos [of x] by (simp add: toDouble_def)
qed

lemma toDouble_nonpos:
  assumes "x \<le> 0"
  shows "toDouble x \<le> 0"
  using toDouble_nonneg [of "- x"] assms by (simp add: toDouble_minus)

lemma toDouble_eval:
  assumes "2 powi e \<le> \<bar>x\<bar>" "\<bar>x\<bar> < 2 powi (e + 1)"
    and "roundHalfEven (x / 2 powi (max (e - 52) (- 1074))) = n"
  shows "toDouble x = of_int n * 2 powi (max (e - 52) (- 1074))"
proof -
  have "0 < (2::real) powi e" by (simp add: zero_less_power_int)
  then have "0 < \<bar>x\<bar>" using assms(1) by linarith
  then have nz: "x \<noteq> 0" by simp
  have "exponentOf x = e" using assms(1,2) by (rule exponentOf_eq)
  then show ?thesis
    using nz assms(3) by (simp add: toDouble_def quantum_def)
qed

lemma toDouble_exact:
  assumes n: "\<bar>n\<bar> < 2 ^ 53" and p: "- 1074 \<le> p"
  shows "toDouble (of_int n * 2 powi p) = of_int n * 2 powi p"
proof (cases "n = 0")
  case True
  then show ?thesis by (simp add: toDouble_def)
next
  case False
  define x where "x = real_of_int n * 2 powi p"
  define m where "m = max (exponentOf x - 52) (- 1074)"
  have p2: "0 < (2::real) powi p" by (simp add: zero_less_power_int)
  have nz: "x \<noteq> 0" using False p2 by (simp add: x_def)
  have "\<bar>x\<bar> = real_of_int \<bar>n\<bar> * 2 powi p"
    using p2 by (simp add: x_def abs_mult)
  also have "\<dots> < 2 ^ 53 * 2 powi p"
  proof -
    have "real_of_int \<bar>n\<bar> < real_of_int (2 ^ 53)" using n by (simp only: of_int_less_iff)
    then show ?thesis using p2 by simp
  qed
  also have "\<dots> = 2 powi (53 + p)"
    by (simp add: power_int_add)
  finally have up: "\<bar>x\<bar> < 2 powi (53 + p)" .
  have "2 powi exponentOf x \<le> \<bar>x\<bar>" using nz by (rule exponentOf_bounds)
  then have "(2::real) powi exponentOf x < 2 powi (53 + p)" using up by linarith
  then have "exponentOf x < 53 + p"
    by (metis linorder_not_less one_le_numeral power_int_increasing)
  then have mp: "m \<le> p" using p by (simp add: m_def)
  have "2 powi p = (2::real) powi (p - m) * 2 powi m"
    using power_int_add [of "2::real" "p - m" m] by simp
  moreover have "(2::real) powi (p - m) = of_int (2 ^ nat (p - m))"
    using mp by (simp add: power_int_def)
  ultimately have "x / 2 powi m = of_int (n * 2 ^ nat (p - m))"
    by (simp add: x_def zero_less_power_int)
  then have "roundHalfEven (x / 2 powi m) = n * 2 ^ nat (p - m)"
    by (simp only: roundHalfEven_of_int)
  then have "toDouble x = of_int (n * 2 ^ nat (p - m)) * 2 powi m"
    using nz by (simp add: toDouble_def quantum_def m_def)
  also have "\<dots> = of_int n * ((2::real) powi (p - m) * 2 powi m)"
    using mp by (simp add: power_int_def)
  also have "\<dots> = x"
    using power_int_add [of "2::real" "p - m" m] by (simp add: x_def)
  finally show ?thesis by (simp add: x_def)
qed

lemma toDouble_of_int:
  assumes "\<bar>n\<bar> \<le> 2 ^ 53"
  shows "toDouble (of_int n) = of_int n"
proof (cases "\<bar>n\<bar> < 2 ^ 53")
  case True
  then show ?thesis using toDouble_exact [of n 0] by simp
next
  case False
  then have c: "n = 2 ^ 53 \<or> n = - (2 ^ 53)" using assms by linarith
  then have "real_of_int n = of_int (n div 2) * 2 powi 1" by auto
  moreover have "\<bar>n div 2\<bar> < 2 ^ 53" using c by auto
  ultimately show ?thesis using toDouble_exact [of "n div 2" 1] by simp
qed

lemma toDouble_mono_pos:
  assumes x: "0 < x" and xy: "x \<le> y"
  shows "toDouble x \<le> toDouble y"
proof -
  have y: "0 < y" using x xy by simp
  define mx where "mx = max (exponentOf x - 52) (- 1074)"
  define my where "my = max (exponentOf y - 52) (- 1074)"
  have qx: "quantum x = 2 powi mx" and qy: "quantum y = 2 powi my"
    by (simp_all add: quantum_def mx_def my_def)
  have dx: "toDouble x = of_int (roundHalfEven (x / 2 powi mx)) * 2 powi mx"
    using x by (simp add: toDouble_def qx)
  have dy: "toDouble y = of_int (roundHalfEven (y / 2 powi my)) * 2 powi my"
    using y by (simp add: toDouble_def qy)
  have e: "exponentOf x \<le> exponentOf y"
    using x xy by (intro exponentOf_mono) simp_all
  then have m: "mx \<le> my" by (simp add: mx_def my_def)
  have px: "0 < (2::real) powi mx" and py: "0 < (2::real) powi my"
    by (simp_all add: zero_less_power_int)
  show ?thesis
  proof (cases "mx = my")
    case True
    have "x / 2 powi my \<le> y / 2 powi my"
      using xy py by (simp add: divide_right_mono)
    then have "roundHalfEven (x / 2 powi my) \<le> roundHalfEven (y / 2 powi my)"
      by (rule roundHalfEven_mono)
    then have "real_of_int (roundHalfEven (x / 2 powi my)) * 2 powi my
                 \<le> real_of_int (roundHalfEven (y / 2 powi my)) * 2 powi my"
      using py by simp
    then show ?thesis unfolding dx dy True .
  next
    case False
    then have lt: "mx < my" using m by simp
    then have my_eq: "my = exponentOf y - 52" unfolding my_def mx_def by linarith
    have ex: "exponentOf x < exponentOf y" using lt my_eq unfolding mx_def by linarith
    define M where "M = (2::real) powi exponentOf y"
    have yM: "M \<le> y"
      using exponentOf_bounds(1) [of y] y by (simp add: M_def)
    have "x < 2 powi (exponentOf x + 1)"
      using exponentOf_bounds(2) [of x] x by simp
    also have "\<dots> \<le> M"
      unfolding M_def using ex by (intro power_int_increasing) simp_all
    finally have xM: "x \<le> M" by simp
    have k: "0 \<le> exponentOf y - mx" using lt my_eq by linarith
    have "M = 2 powi (exponentOf y - mx) * 2 powi mx"
      unfolding M_def using power_int_add [of "2::real" "exponentOf y - mx" mx] by simp
    also have "(2::real) powi (exponentOf y - mx) = of_int (2 ^ nat (exponentOf y - mx))"
      using k by (simp add: power_int_def)
    finally have Mx: "M = of_int (2 ^ nat (exponentOf y - mx)) * 2 powi mx" .
    then have "M / 2 powi mx = of_int (2 ^ nat (exponentOf y - mx))"
      using px by simp
    moreover have "x / 2 powi mx \<le> M / 2 powi mx"
      using xM px by (simp add: divide_right_mono)
    ultimately have "roundHalfEven (x / 2 powi mx)
                       \<le> roundHalfEven (of_int (2 ^ nat (exponentOf y - mx)))"
      using roundHalfEven_mono by metis
    then have "roundHalfEven (x / 2 powi mx) \<le> 2 ^ nat (exponentOf y - mx)"
      by (simp only: roundHalfEven_of_int)
    then have "real_of_int (roundHalfEven (x / 2 powi mx))
                 \<le> real_of_int (2 ^ nat (exponentOf y - mx))"
      by (simp only: of_int_le_iff)
    then have "real_of_int (roundHalfEven (x / 2 powi mx)) * 2 powi mx
                 \<le> real_of_int (2 ^ nat (exponentOf y - mx)) * 2 powi mx"
      using px by (simp only: mult_right_mono less_imp_le)
    then have low: "toDouble x \<le> M" unfolding dx Mx .
    have "M = 2 powi 52 * 2 powi my"
      unfolding M_def my_eq using power_int_add [of "2::real" 52 "exponentOf y - 52"] by simp
    then have My: "M = of_int (2 ^ 52) * 2 powi my" by simp
    then have "M / 2 powi my = of_int (2 ^ 52)"
      using py by simp
    moreover have "M / 2 powi my \<le> y / 2 powi my"
      using yM py by (simp add: divide_right_mono)
    ultimately have "roundHalfEven (of_int (2 ^ 52)) \<le> roundHalfEven (y / 2 powi my)"
      using roundHalfEven_mono by metis
    then have "2 ^ 52 \<le> roundHalfEven (y / 2 powi my)"
      by (simp only: roundHalfEven_of_int)
    then have "real_of_int (2 ^ 52) \<le> real_of_int (roundHalfEven (y / 2 powi my))"
      by (simp only: of_int_le_iff)
    then have "real_of_int (2 ^ 52) * 2 powi my
                 \<le> real_of_int (roundHalfEven (y / 2 powi my)) * 2 powi my"
      using py by (simp only: mult_right_mono less_imp_le)
    then have "M \<le> toDouble y" unfolding dy My .
    then show ?thesis using low by linarith
  qed
qed

lemma toDouble_mono:
  assumes "x \<le> y"
  shows "toDouble x \<le> toDouble y"
proof -
  consider "0 < x" | "x \<le> 0" "0 \<le> y" | "y < 0" by linarith
  then show ?thesis
  proof cases
    case 1
    then show ?thesis using assms by (rule toDouble_mono_pos)
  next
    case 2
    then show ?thesis
      using toDouble_nonpos [of x] toDouble_nonneg [of y] by linarith
  next
    case 3
    then have "toDouble (- y) \<le> toDouble (- x)"
      using assms by (intro toDouble_mono_pos) simp_all
    then show ?thesis by (simp add: toDouble_minus)
  qed
qed

lemma toDouble_ge_int:
  assumes "\<bar>n\<bar> \<le> 2 ^ 53" "of_int n \<le> x"
  shows "of_int n \<le> toDouble x"
  using toDouble_mono [OF assms(2)] toDouble_of_int [OF assms(1)] by simp

lemma toDouble_le_int:
  assumes "\<bar>n\<bar> \<le> 2 ^ 53" "x \<le> of_int n"
  shows "toDouble x \<le> of_int n"
  using toDouble_mono [OF assms(2)] toDouble_of_int [OF assms(1)] by simp

lemma toDouble_eval_near:
  assumes "2 powi e \<le> \<bar>x\<bar>" "\<bar>x\<bar> < 2 powi (e + 1)"
    and "m = max (e - 52) (- 1074)"
    and "of_int n - 1 / 2 < x / 2 powi m" "x / 2 powi m < of_int n + 1 / 2"
  shows "toDouble x = of_int n * 2 powi m"
proof -
  have "roundHalfEven (x / 2 powi m) = n"
    using assms(4,5) by (rule roundHalfEven_near)
  then show ?thesis
    using toDouble_eval [OF assms(1,2)] assms(3) by simp
qed

lemma toDouble_eval_tie:
  assumes "2 powi e \<le> \<bar>x\<bar>" "\<bar>x\<bar> < 2 powi (e + 1)"
    and "m = max (e - 52) (- 1074)"
    and "x / 2 powi m = of_int n + 1 / 2"
  shows "toDouble x = of_int (if even n then n else n + 1) * 2 powi m"
proof -
  have "\<lfloor>x / 2 powi m\<rfloor> = n" using assms(4) by linarith
  then have "roundHalfEven (x / 2 powi m) = (if even n then n else n + 1)"
    using assms(4) by (simp add: roundHalfEven_def Let_def)
  then show ?thesis
    using toDouble_eval [OF assms(1,2)] assms(3) by simp
qed

lemma toDouble_numeral [simp]:
  "numeral k \<le> (2::int) ^ 53 \<Longrightarrow> toDouble (numeral k) = numeral k"
  using toDouble_of_int [of "numeral k"] by simp

lemma toDouble_neg_numeral [simp]:
  "numeral k \<le> (2::int) ^ 53 \<Longrightarrow> toDouble (- numeral k) = - numeral k"
  using toDouble_of_int [of "- numeral k"] by simp

lemma toDouble_one [simp]: "toDouble 1 = 1"
  using toDouble_of_int [of 1] by simp

lemma toDouble_zero' [simp]: "toDouble 0 = 0"
  by (rule toDouble_zero)

section \<open>Circuit breaker (apps/api/src/middleware/circuit-breaker.ts)\<close>

datatype Status = CLOSED | OPEN | HALF_OPEN

record CircuitState =
  status :: Status
  failures :: nat
  lastFailureTime :: int
  successCount :: nat

definition failureThreshold :: nat where
  "failureThreshold = 5"

definition successThreshold :: nat where
  "successThreshold = 2"

definition timeout :: int where
  "timeout = 60000"

text \<open>The field initialiser of the class, also what \<open>reset()\<close> restores.\<close>

definition initialState :: CircuitState where
  "initialState = \<lparr>status = CLOSED, failures = 0, lastFailureTime = 0, successCount = 0\<rparr>"

text \<open>\<open>open()\<close> reads the clock itself; \<open>now\<close> is that reading.\<close>

definition open_circuit :: "int \<Rightarrow> CircuitState \<Rightarrow> CircuitState" where
  "open_circuit now s = s\<lparr>status := OPEN, lastFailureTime := now\<rparr>"

definition halfOpen :: "CircuitState \<Rightarrow> CircuitState" where
  "halfOpen s = s\<lparr>status := HALF_OPEN, successCount := 0\<rparr>"

definition close :: "CircuitState \<Rightarrow> CircuitState" where
  "close s = s\<lparr>status := CLOSED, failures := 0, successCount := 0\<rparr>"

text \<open>\<open>isOpen()\<close> returns its answer together with the state it leaves behind.\<close>

definition isOpen :: "int \<Rightarrow> CircuitState \<Rightarrow> bool \<times> CircuitState" where
  "isOpen now s =
     (if status s = OPEN then
        (let timeSinceLastFailure = now - lastFailureTime s
         in if timeSinceLastFailure > timeout then (False, halfOpen s) else (True, s))
      else (False, s))"

definition recordSuccess :: "CircuitState \<Rightarrow> CircuitState" where
  "recordSuccess s =
     (if status s = HALF_OPEN then
        (let s1 = s\<lparr>successCount := successCount s + 1\<rparr>
         in if successCount s1 \<ge> successThreshold then close s1 else s1)
      else if status s = CLOSED then s\<lparr>failures := 0\<rparr>
      else s)"

text \<open>
  \<open>recordFailure()\<close> reads the clock once for \<open>lastFailureTime\<close> (\<open>now\<close>) and, when the
  threshold is reached, a second time inside \<open>open()\<close> (\<open>now'\<close>).
\<close>

definition recordFailure :: "int \<Rightarrow> int \<Rightarrow> CircuitState \<Rightarrow> CircuitState" where
  "recordFailure now now' s =
     (let s1 = s\<lparr>failures := failures s + 1, lastFailureTime := now\<rparr>
      in if failures s1 \<ge> failureThreshold then open_circuit now' s1 else s1)"

text \<open>A run of consecutive failures, one pair of clock readings per call.\<close>

fun recordFailures :: "(int \<times> int) list \<Rightarrow> CircuitState \<Rightarrow> CircuitState" where
  "recordFailures [] s = s"
| "recordFailures ((now, now') # ts) s = recordFailures ts (recordFailure now now' s)"

subsection \<open>Properties of the circuit breaker\<close>

lemma recordFailure_failures:
  "failures (recordFailure now now' s) = failures s + 1"
  by (simp add: recordFailure_def open_circuit_def Let_def)

lemma recordFailures_failures:
  "failures (recordFailures ts s) = failures s + length ts"
  by (induction ts s rule: recordFailures.induct) (simp_all add: recordFailure_failures)

lemma recordFailures_snoc:
  "recordFailures (ts @ [(now, now')]) s = recordFailure now now' (recordFailures ts s)"
  by (induction ts s rule: recordFailures.induct) simp_all

lemma recordFailures_status_below:
  "status s = CLOSED \<Longrightarrow> failures s + length ts < failureThreshold
     \<Longrightarrow> status (recordFailures ts s) = CLOSED"
proof (induction ts s rule: recordFailures.induct)
  case (1 s)
  then show ?case by simp
next
  case (2 now now' ts s)
  have "status (recordFailure now now' s) = CLOSED"
    using "2.prems" by (simp add: recordFailure_def Let_def)
  moreover have "failures (recordFailure now now' s) + length ts < failureThreshold"
    using "2.prems" by (simp add: recordFailure_failures)
  ultimately show ?case using "2.IH" by simp
qed

lemma recordFailure_reaches_threshold:
  "failures s + 1 \<ge> failureThreshold \<Longrightarrow>
     status (recordFailure now now' s) = OPEN \<and> lastFailureTime (recordFailure now now' s) = now'"
  by (simp add: recordFailure_def open_circuit_def Let_def)

text \<open>
  Claim C4. Start from any Closed breaker whose failure counter is zero (the initial state
  is one). After fewer than five consecutive \<open>recordFailure\<close> calls \<open>isOpen()\<close> still
  answers false; after exactly five it answers true and leaves the state alone, as long as
  no more than 60000 ms have passed since the last failure was recorded. Once more than
  60000 ms have passed, the next \<open>isOpen()\<close> answers false and moves the breaker to
  HALF_OPEN. From there one \<open>recordSuccess\<close> keeps it HALF_OPEN and the second closes it,
  while a single \<open>recordFailure\<close> (also after one success) opens it again.
\<close>

theorem circuit_breaker_lifecycle:
  assumes closed: "status s0 = CLOSED" and fresh: "failures s0 = 0"
    and four: "length ts = 4"
    and s5: "s5 = recordFailures (ts @ [(t5, u5)]) s0"
    and h: "h = snd (isOpen now2 s5)"
  shows "(length ts' < 5 \<longrightarrow> fst (isOpen now (recordFailures ts' s0)) = False)
       \<and> (now1 - u5 \<le> timeout \<longrightarrow> isOpen now1 s5 = (True, s5))
       \<and> (now2 - u5 > timeout \<longrightarrow>
            fst (isOpen now2 s5) = False
          \<and> status h = HALF_OPEN
          \<and> status (recordSuccess h) = HALF_OPEN
          \<and> status (recordSuccess (recordSuccess h)) = CLOSED
          \<and> status (recordFailure t u h) = OPEN
          \<and> status (recordFailure t u (recordSuccess h)) = OPEN)"
proof -
  let ?s4 = "recordFailures ts s0"
  have s5_eq: "s5 = recordFailure t5 u5 ?s4"
    using s5 by (simp add: recordFailures_snoc)
  have f4: "failures ?s4 = 4"
    using fresh four by (simp add: recordFailures_failures)
  have open5: "status s5 = OPEN" and last5: "lastFailureTime s5 = u5"
    using recordFailure_reaches_threshold [of ?s4 t5 u5] f4 s5_eq
    by (simp_all add: failureThreshold_def)
  have f5: "failures s5 = 5"
    using f4 s5_eq by (simp add: recordFailure_failures)
  have below: "length ts' < 5 \<longrightarrow> fst (isOpen now (recordFailures ts' s0)) = False"
    using recordFailures_status_below [of s0 ts'] closed fresh
    by (simp add: isOpen_def failureThreshold_def)
  have within: "now1 - u5 \<le> timeout \<longrightarrow> isOpen now1 s5 = (True, s5)"
    using open5 last5 by (simp add: isOpen_def Let_def)
  have after: "fst (isOpen now2 s5) = False \<and> status h = HALF_OPEN
          \<and> status (recordSuccess h) = HALF_OPEN
          \<and> status (recordSuccess (recordSuccess h)) = CLOSED
          \<and> status (recordFailure t u h) = OPEN
          \<and> status (recordFailure t u (recordSuccess h)) = OPEN"
    if late: "now2 - u5 > timeout"
  proof -
    have h_eq: "h = halfOpen s5"
      using h open5 last5 late by (simp add: isOpen_def Let_def)
    have "fst (isOpen now2 s5) = False"
      using open5 last5 late by (simp add: isOpen_def Let_def)
    moreover have "status h = HALF_OPEN"
      by (simp add: h_eq halfOpen_def)
    moreover have "status (recordSuccess h) = HALF_OPEN"
      by (simp add: h_eq halfOpen_def recordSuccess_def successThreshold_def Let_def)
    moreover have "status (recordSuccess (recordSuccess h)) = CLOSED"
      by (simp add: h_eq halfOpen_def recordSuccess_def successThreshold_def close_def Let_def)
    moreover have "status (recordFailure t u h) = OPEN"
      using f5
      by (simp add: h_eq halfOpen_def recordFailure_def failureThreshold_def open_circuit_def
          Let_def)
    moreover have "status (recordFailure t u (recordSuccess h)) = OPEN"
      using f5
      by (simp add: h_eq halfOpen_def recordSuccess_def successThreshold_def recordFailure_def
          failureThreshold_def open_circuit_def Let_def)
    ultimately show ?thesis by simp
  qed
  show ?thesis using below within after by blast
qed

theorem circuit_breaker_lifecycle_witness:
  "status initialState = CLOSED \<and> failures initialState = 0
   \<and> fst (isOpen 10 (recordFailures [(0, 0), (1, 1)] initialState)) = False
   \<and> isOpen 60004 (recordFailures [(0, 0), (1, 1), (2, 2), (3, 3), (4, 4)] initialState)
       = (True, \<lparr>status = OPEN, failures = 5, lastFailureTime = 4, successCount = 0\<rparr>)
   \<and> isOpen 60005 (recordFailures [(0, 0), (1, 1), (2, 2), (3, 3), (4, 4)] initialState)
       = (False, \<lparr>status = HALF_OPEN, failures = 5, lastFailureTime = 4, successCount = 0\<rparr>)
   \<and> status (recordSuccess (recordSuccess (snd (isOpen 60005
         (recordFailures [(0, 0), (1, 1), (2, 2), (3, 3), (4, 4)] initialState))))) = CLOSED
   \<and> status (recordFailure 60006 60006 (snd (isOpen 60005
         (recordFailures [(0, 0), (1, 1), (2, 2), (3, 3), (4, 4)] initialState)))) = OPEN"
  using circuit_breaker_lifecycle [of initialState "[(0, 0), (1, 1), (2, 2), (3, 3)]"
      "recordFailures [(0, 0), (1, 1), (2, 2), (3, 3), (4, 4)] initialState" 4 4
      "snd (isOpen 60005 (recordFailures [(0, 0), (1, 1), (2, 2), (3, 3), (4, 4)] initialState))"
      60005 "[(0, 0), (1, 1)]" 10 60004 60006 60006]
  by (simp add: initialState_def timeout_def recordFailure_def failureThreshold_def
      open_circuit_def isOpen_def halfOpen_def Let_def)

section \<open>Token-bucket rate limiter (class RateLimiter)\<close>

record BucketState =
  tokens :: real
  lastRefillTime :: int

type_synonym buckets = "string \<rightharpoonup> BucketState"

definition capacity :: real where
  "capacity = 100"

definition refillRate :: real where
  "refillRate = 10"

definition refillInterval :: real where
  "refillInterval = 1000"

definition refillBucket :: "int \<Rightarrow> BucketState \<Rightarrow> BucketState" where
  "refillBucket now bucket =
     (let timePassed = js_sub (of_int now) (of_int (lastRefillTime bucket));
          tokensToAdd = js_mul (js_div timePassed refillInterval) refillRate
      in bucket\<lparr>tokens := min capacity (js_add (tokens bucket) tokensToAdd),
                lastRefillTime := now\<rparr>)"

text \<open>
  \<open>allowRequest\<close> reads the clock when it creates a bucket (\<open>created\<close>, not read for a
  key that has one) and again inside \<open>refillBucket\<close> (\<open>now\<close>). The bucket object is
  stored in the map before it is mutated; the model stores the mutated bucket.
\<close>

definition allowRequest :: "int \<Rightarrow> int \<Rightarrow> string \<Rightarrow> buckets \<Rightarrow> bool \<times> buckets" where
  "allowRequest created now clientId bs =
     (let bucket = (case bs clientId of
                      None \<Rightarrow> \<lparr>tokens = capacity, lastRefillTime = created\<rparr>
                    | Some b \<Rightarrow> b);
          bucket1 = refillBucket now bucket
      in if tokens bucket1 \<ge> 1
         then (True, bs(clientId \<mapsto> bucket1\<lparr>tokens := js_sub (tokens bucket1) 1\<rparr>))
         else (False, bs(clientId \<mapsto> bucket1)))"

definition getRetryAfter :: "string \<Rightarrow> buckets \<Rightarrow> int" where
  "getRetryAfter clientId bs =
     (case bs clientId of
        None \<Rightarrow> 0
      | Some bucket \<Rightarrow> \<lceil>js_div (js_sub 1 (tokens bucket)) refillRate\<rceil>)"

definition reset :: "string \<Rightarrow> buckets \<Rightarrow> buckets" where
  "reset clientId bs = bs(clientId := None)"

text \<open>
  A run of \<open>allowRequest\<close> calls, each with its two clock readings and its client key;
  the answers are collected in call order.
\<close>

fun allowRequests :: "(int \<times> int \<times> string) list \<Rightarrow> buckets \<Rightarrow> bool list \<times> buckets" where
  "allowRequests [] bs = ([], bs)"
| "allowRequests ((created, now, clientId) # calls) bs =
     (let (ok, bs1) = allowRequest created now clientId bs;
          (oks, bs2) = allowRequests calls bs1
      in (ok # oks, bs2))"

text \<open>
  The clock readings of a run in the order they are taken, and the range a bucket is meant
  to stay in: between 0 and capacity, last refilled no later than \<open>t\<close>.
\<close>

definition clock_readings :: "(int \<times> int \<times> string) list \<Rightarrow> int list" where
  "clock_readings calls = concat (map (\<lambda>(created, now, clientId). [created, now]) calls)"

definition bucket_ok :: "int \<Rightarrow> BucketState \<Rightarrow> bool" where
  "bucket_ok t b = (0 \<le> tokens b \<and> tokens b \<le> capacity \<and> lastRefillTime b \<le> t)"

definition buckets_ok :: "int \<Rightarrow> buckets \<Rightarrow> bool" where
  "buckets_ok t bs = (\<forall>k b. bs k = Some b \<longrightarrow> bucket_ok t b)"

subsection \<open>Properties of the rate limiter\<close>

lemma refillBucket_no_time:
  assumes "m \<le> 100"
  shows "refillBucket t \<lparr>tokens = real m, lastRefillTime = t\<rparr>
           = \<lparr>tokens = real m, lastRefillTime = t\<rparr>"
proof -
  have "\<bar>int m\<bar> \<le> 2 ^ 53" using assms by simp
  then have "toDouble (real m) = real m"
    using toDouble_of_int [of "int m"] by simp
  then show ?thesis
    using assms
    by (simp add: refillBucket_def Let_def js_sub_def js_div_def js_mul_def js_add_def
        capacity_def)
qed

lemma allowRequest_steady:
  assumes "bs k = Some \<lparr>tokens = real m, lastRefillTime = t\<rparr>" "m \<le> 100"
  shows "allowRequest c t k bs =
     (if m \<ge> 1 then (True, bs(k \<mapsto> \<lparr>tokens = real (m - 1), lastRefillTime = t\<rparr>))
      else (False, bs))"
proof -
  have "\<bar>int m - 1\<bar> \<le> 2 ^ 53" using assms(2) by simp
  then have "toDouble (real_of_int (int m - 1)) = real_of_int (int m - 1)"
    by (rule toDouble_of_int)
  then have sub: "1 \<le> m \<Longrightarrow> js_sub (real m) 1 = real (m - 1)"
    by (simp add: js_sub_def of_nat_diff)
  show ?thesis
    using assms sub
    by (auto simp: allowRequest_def Let_def refillBucket_no_time)
qed

lemma allowRequests_steady:
  assumes "bs k = Some \<lparr>tokens = real m, lastRefillTime = t\<rparr>" "m \<le> 100"
  shows "fst (allowRequests (replicate n (c, t, k)) bs) = replicate (min n m) True @ replicate (n - m) False"
  using assms
proof (induction n arbitrary: m bs)
  case 0
  then show ?case by simp
next
  case (Suc n)
  show ?case
  proof (cases m)
    case 0
    then have step: "allowRequest c t k bs = (False, bs)"
      using allowRequest_steady [of bs k m t c] Suc.prems by simp
    have "fst (allowRequests (replicate n (c, t, k)) bs) = replicate (min n m) True @ replicate (n - m) False"
      using Suc.IH [of bs m] Suc.prems by simp
    then show ?thesis using step 0 by (simp add: split_def)
  next
    case (Suc m')
    let ?bs = "bs(k \<mapsto> \<lparr>tokens = real m', lastRefillTime = t\<rparr>)"
    have step: "allowRequest c t k bs = (True, ?bs)"
      using allowRequest_steady [of bs k m t c] Suc.prems Suc by simp
    have "fst (allowRequests (replicate n (c, t, k)) ?bs) = replicate (min n m') True @ replicate (n - m') False"
    proof (rule Suc.IH)
      show "?bs k = Some \<lparr>tokens = real m', lastRefillTime = t\<rparr>" by simp
      show "m' \<le> 100" using Suc.prems Suc by simp
    qed
    then show ?thesis using step Suc by (simp add: split_def)
  qed
qed

lemma allowRequest_fresh_steady:
  assumes "bs k = None"
  shows "allowRequest t t k bs = (True, bs(k \<mapsto> \<lparr>tokens = 99, lastRefillTime = t\<rparr>))"
  using assms
  by (simp add: allowRequest_def refillBucket_def capacity_def refillRate_def refillInterval_def
      js_sub_def js_div_def js_mul_def js_add_def Let_def)

lemma allowRequests_fresh_steady:
  assumes "bs k = None"
  shows "fst (allowRequests (replicate n (t, t, k)) bs)
           = replicate (min n 100) True @ replicate (n - 100) False"
proof (cases n)
  case 0
  then show ?thesis by simp
next
  case (Suc n')
  let ?bs = "bs(k \<mapsto> \<lparr>tokens = real 99, lastRefillTime = t\<rparr>)"
  have rest: "fst (allowRequests (replicate n' (t, t, k)) ?bs)
                = replicate (min n' 99) True @ replicate (n' - 99) False"
    by (rule allowRequests_steady) simp_all
  have step: "allowRequest t t k bs = (True, ?bs)"
    using allowRequest_fresh_steady [of bs k t] assms by simp
  have "min (Suc n') 100 = Suc (min n' 99)" by simp
  then show ?thesis using rest step Suc by (simp add: split_def)
qed

lemma allowRequest_unfold:
  "allowRequest created now k bs =
     (let bucket = (case bs k of
                      None \<Rightarrow> \<lparr>tokens = capacity, lastRefillTime = created\<rparr>
                    | Some b \<Rightarrow> b);
          refilled = min capacity (js_add (tokens bucket)
                       (js_mul (js_div (js_sub (of_int now) (of_int (lastRefillTime bucket)))
                          refillInterval) refillRate))
      in (refilled \<ge> 1,
          bs(k \<mapsto> \<lparr>tokens = (if refilled \<ge> 1 then js_sub refilled 1 else refilled),
                        lastRefillTime = now\<rparr>)))"
proof -
  obtain bucket where bucket: "bucket = (case bs k of
                      None \<Rightarrow> \<lparr>tokens = capacity, lastRefillTime = created\<rparr>
                    | Some b \<Rightarrow> b)"
    by simp
  have r: "refillBucket now bucket
             = \<lparr>tokens = min capacity (js_add (tokens bucket)
                       (js_mul (js_div (js_sub (of_int now) (of_int (lastRefillTime bucket)))
                          refillInterval) refillRate)),
                lastRefillTime = now\<rparr>"
    by (simp add: refillBucket_def Let_def)
  show ?thesis
    unfolding allowRequest_def Let_def bucket [symmetric] r by simp
qed

text \<open>
  Claim C5. For a key that has no bucket yet, 101 calls made while the clock stands still
  are answered true exactly 100 times and then false. And every call, for a fresh or a
  known key and at any clock reading, first refills the bucket to
  \<open>min(capacity, tokens + (now - lastRefillTime) / refillInterval * refillRate)\<close>, each
  operation in double precision, answers true exactly when that count is at least 1,
  stores the count less 1 when it answers true and the refilled count itself (with the new
  refill time) when it answers false.
\<close>

theorem allowRequest_token_bucket:
  "(bs k = None \<longrightarrow>
      fst (allowRequests (replicate 101 (t, t, k)) bs) = replicate 100 True @ [False])
   \<and> (let bucket = (case bs k of
                        None \<Rightarrow> \<lparr>tokens = capacity, lastRefillTime = created\<rparr>
                      | Some b \<Rightarrow> b);
            refilled = min capacity (js_add (tokens bucket)
                         (js_mul (js_div (js_sub (of_int now) (of_int (lastRefillTime bucket)))
                            refillInterval) refillRate))
        in allowRequest created now k bs =
             (refilled \<ge> 1,
              bs(k \<mapsto> \<lparr>tokens = (if refilled \<ge> 1 then js_sub refilled 1 else refilled),
                            lastRefillTime = now\<rparr>)))"
proof (rule conjI)
  show "bs k = None \<longrightarrow>
      fst (allowRequests (replicate 101 (t, t, k)) bs) = replicate 100 True @ [False]"
    using allowRequests_fresh_steady [of bs k 101 t] by simp
  show "let bucket = (case bs k of
                        None \<Rightarrow> \<lparr>tokens = capacity, lastRefillTime = created\<rparr>
                      | Some b \<Rightarrow> b);
            refilled = min capacity (js_add (tokens bucket)
                         (js_mul (js_div (js_sub (of_int now) (of_int (lastRefillTime bucket)))
                            refillInterval) refillRate))
        in allowRequest created now k bs =
             (refilled \<ge> 1,
              bs(k \<mapsto> \<lparr>tokens = (if refilled \<ge> 1 then js_sub refilled 1 else refilled),
                            lastRefillTime = now\<rparr>))"
    unfolding allowRequest_unfold [of created now k bs] by (simp add: Let_def)
qed

text \<open>
  The second example is a bucket that holds the double nearest to 0.08, last refilled at
  8 ms and asked at 100 ms: the refill adds \<open>92 / 1000 * 10\<close>, which is
  0.9199999999999999 in double precision, the sum is 0.9999999999999999 and the call is
  denied.
\<close>

lemma refill_92ms:
  "js_add (real_of_int 5764607523034235 * 2 powi (- 56))
     (js_mul (js_div (js_sub 100 8) 1000) 10)
     = real_of_int 9007199254740991 * 2 powi (- 53)"
proof -
  have a: "js_sub 100 8 = 92" by (simp add: js_sub_def)
  have b: "js_div 92 1000 = real_of_int 6629298651489370 * 2 powi (- 56)"
    unfolding js_div_def by (rule toDouble_eval_near [where e = "- 4"]) simp_all
  have c: "js_mul (real_of_int 6629298651489370 * 2 powi (- 56)) 10
             = real_of_int 8286623314361712 * 2 powi (- 53)"
    unfolding js_mul_def
    using toDouble_eval_tie [where e = "- 1" and m = "- 53" and n = 8286623314361712
      and x = "real_of_int 6629298651489370 * 2 powi (- 56) * 10"]
    by simp
  have d: "js_add (real_of_int 5764607523034235 * 2 powi (- 56))
             (real_of_int 8286623314361712 * 2 powi (- 53))
             = real_of_int 9007199254740991 * 2 powi (- 53)"
    unfolding js_add_def by (rule toDouble_eval_near [where e = "- 1"]) simp_all
  show ?thesis unfolding a b c d ..
qed

lemma refill_92ms_fraction:
  "js_add (5764607523034235 / 72057594037927936) (js_mul (js_div (js_sub 100 8) 1000) 10)
     = 9007199254740991 / 9007199254740992"
  using refill_92ms by simp

theorem allowRequest_token_bucket_witness:
  "(Map.empty :: buckets) ''10.0.0.1'' = None
   \<and> fst (allowRequests (replicate 101 (7, 7, ''10.0.0.1'')) Map.empty)
       = replicate 100 True @ [False]
   \<and> allowRequest 0 100 ''10.0.0.1''
         [''10.0.0.1'' \<mapsto> \<lparr>tokens = real_of_int 5764607523034235 * 2 powi (- 56),
                           lastRefillTime = 8\<rparr>]
       = (False, [''10.0.0.1'' \<mapsto> \<lparr>tokens = real_of_int 9007199254740991 * 2 powi (- 53),
                                   lastRefillTime = 100\<rparr>])
   \<and> allowRequest 0 1500 ''10.0.0.1''
         [''10.0.0.1'' \<mapsto> \<lparr>tokens = 0, lastRefillTime = 1000\<rparr>]
       = (True, [''10.0.0.1'' \<mapsto> \<lparr>tokens = 4, lastRefillTime = 1500\<rparr>])"
proof -
  have half: "toDouble (1 / 2) = 1 / 2"
    using toDouble_exact [of 1 "- 1"] by simp
  have a: "fst (allowRequests (replicate 101 (7, 7, ''10.0.0.1'')) Map.empty)
       = replicate 100 True @ [False]"
    using allowRequest_token_bucket [of Map.empty "''10.0.0.1''" 7 0 0] by simp
  have b: "allowRequest 0 100 ''10.0.0.1''
         [''10.0.0.1'' \<mapsto> \<lparr>tokens = real_of_int 5764607523034235 * 2 powi (- 56),
                           lastRefillTime = 8\<rparr>]
       = (False, [''10.0.0.1'' \<mapsto> \<lparr>tokens = real_of_int 9007199254740991 * 2 powi (- 53),
                                   lastRefillTime = 100\<rparr>])"
    using allowRequest_token_bucket [of
        "[''10.0.0.1'' \<mapsto> \<lparr>tokens = real_of_int 5764607523034235 * 2 powi (- 56),
                           lastRefillTime = 8\<rparr>]" "''10.0.0.1''" 7 0 100]
    by (simp add: capacity_def refillRate_def refillInterval_def Let_def refill_92ms_fraction)
  have c: "allowRequest 0 1500 ''10.0.0.1''
         [''10.0.0.1'' \<mapsto> \<lparr>tokens = 0, lastRefillTime = 1000\<rparr>]
       = (True, [''10.0.0.1'' \<mapsto> \<lparr>tokens = 4, lastRefillTime = 1500\<rparr>])"
    using allowRequest_token_bucket [of
        "[''10.0.0.1'' \<mapsto> \<lparr>tokens = 0, lastRefillTime = 1000\<rparr>]" "''10.0.0.1''" 7 0 1500]
      half
    by (simp add: capacity_def refillRate_def refillInterval_def Let_def
        js_sub_def js_div_def js_mul_def js_add_def)
  show ?thesis using a b c by simp
qed

lemma refillBucket_le_capacity:
  "tokens (refillBucket now b) \<le> capacity"
  by (simp add: refillBucket_def Let_def)

lemma tokensToAdd_nonneg:
  assumes "prev \<le> now"
  shows "0 \<le> js_mul (js_div (js_sub (of_int now) (of_int prev)) refillInterval) refillRate"
proof -
  have "0 \<le> js_sub (real_of_int now) (of_int prev)"
    unfolding js_sub_def using assms by (intro toDouble_nonneg) simp
  then have "0 \<le> js_div (js_sub (of_int now) (of_int prev)) refillInterval"
    unfolding js_div_def by (intro toDouble_nonneg) (simp add: refillInterval_def)
  then show ?thesis
    unfolding js_mul_def by (intro toDouble_nonneg) (simp add: refillRate_def)
qed

lemma refillBucket_ok:
  assumes "bucket_ok t b" "t \<le> now"
  shows "bucket_ok now (refillBucket now b)"
proof -
  have "0 \<le> js_mul (js_div (js_sub (of_int now) (of_int (lastRefillTime b))) refillInterval)
               refillRate"
    using assms by (intro tokensToAdd_nonneg) (simp add: bucket_ok_def)
  then have "0 \<le> js_add (tokens b)
      (js_mul (js_div (js_sub (of_int now) (of_int (lastRefillTime b))) refillInterval) refillRate)"
    unfolding js_add_def using assms(1) by (intro toDouble_nonneg) (simp add: bucket_ok_def)
  then show ?thesis
    by (simp add: bucket_ok_def refillBucket_def Let_def capacity_def)
qed

lemma bucket_ok_mono:
  "bucket_ok t b \<Longrightarrow> t \<le> t' \<Longrightarrow> bucket_ok t' b"
  by (simp add: bucket_ok_def)

lemma consume_in_range:
  assumes "1 \<le> x" "x \<le> capacity"
  shows "0 \<le> js_sub x 1" and "js_sub x 1 \<le> capacity"
proof -
  show "0 \<le> js_sub x 1"
    unfolding js_sub_def using assms(1) by (intro toDouble_nonneg) simp
  have "toDouble (x - 1) \<le> real_of_int 100"
    using assms(2) by (intro toDouble_le_int) (simp_all add: capacity_def)
  then show "js_sub x 1 \<le> capacity"
    by (simp add: js_sub_def capacity_def)
qed

lemma allowRequest_ok:
  assumes ok: "buckets_ok t bs" and t: "t \<le> created" and c: "created \<le> now"
  shows "buckets_ok now (snd (allowRequest created now k bs))"
proof -
  let ?bucket = "case bs k of None \<Rightarrow> \<lparr>tokens = capacity, lastRefillTime = created\<rparr>
                 | Some b \<Rightarrow> b"
  have "bucket_ok created ?bucket"
  proof (cases "bs k")
    case None
    then show ?thesis by (simp add: bucket_ok_def capacity_def)
  next
    case (Some b)
    then have "bucket_ok t b" using ok by (simp add: buckets_ok_def)
    then show ?thesis using Some t bucket_ok_mono [of t b created] by simp
  qed
  then have r: "bucket_ok now (refillBucket now ?bucket)"
    using c by (rule refillBucket_ok)
  have others: "bucket_ok now b" if "bs k' = Some b" for k' b
    using ok that t c bucket_ok_mono [of t b now] by (simp add: buckets_ok_def)
  have consumed: "bucket_ok now ((refillBucket now ?bucket)
                    \<lparr>tokens := js_sub (tokens (refillBucket now ?bucket)) 1\<rparr>)"
    if "1 \<le> tokens (refillBucket now ?bucket)"
    using r that consume_in_range [of "tokens (refillBucket now ?bucket)"]
    by (simp add: bucket_ok_def)
  show ?thesis
    using r others consumed
    by (auto simp: allowRequest_def Let_def buckets_ok_def)
qed

lemma allowRequests_ok:
  assumes "buckets_ok t bs" "sorted (t # clock_readings calls)"
  shows "\<exists>t'. buckets_ok t' (snd (allowRequests calls bs))"
  using assms
proof (induction calls arbitrary: t bs)
  case Nil
  then show ?case by auto
next
  case (Cons call calls)
  obtain created now k where call: "call = (created, now, k)"
    by (cases call) auto
  have t: "t \<le> created" and c: "created \<le> now"
    and rest: "sorted (now # clock_readings calls)"
    using Cons.prems(2) by (auto simp: call clock_readings_def)
  have "buckets_ok now (snd (allowRequest created now k bs))"
    using Cons.prems(1) t c by (rule allowRequest_ok)
  then have "\<exists>t'. buckets_ok t' (snd (allowRequests calls (snd (allowRequest created now k bs))))"
    using rest by (rule Cons.IH)
  then show ?case by (simp add: call split_def Let_def)
qed

lemma allowRequest_le_capacity:
  assumes "\<forall>k b. bs k = Some b \<longrightarrow> tokens b \<le> capacity"
  shows "\<forall>k' b. snd (allowRequest created now k bs) k' = Some b \<longrightarrow> tokens b \<le> capacity"
proof -
  let ?bucket = "case bs k of None \<Rightarrow> \<lparr>tokens = capacity, lastRefillTime = created\<rparr>
                 | Some b \<Rightarrow> b"
  have r: "tokens (refillBucket now ?bucket) \<le> capacity"
    by (rule refillBucket_le_capacity)
  have "js_sub (tokens (refillBucket now ?bucket)) 1 \<le> capacity"
    if "1 \<le> tokens (refillBucket now ?bucket)"
    using that r by (rule consume_in_range)
  then show ?thesis
    using assms r by (auto simp: allowRequest_def Let_def)
qed

lemma allowRequests_le_capacity:
  assumes "\<forall>k b. bs k = Some b \<longrightarrow> tokens b \<le> capacity"
  shows "\<forall>k b. snd (allowRequests calls bs) k = Some b \<longrightarrow> tokens b \<le> capacity"
  using assms
proof (induction calls arbitrary: bs)
  case Nil
  then show ?case by simp
next
  case (Cons call calls)
  obtain created now k where call: "call = (created, now, k)"
    by (cases call) auto
  have "\<forall>k' b. snd (allowRequest created now k bs) k' = Some b \<longrightarrow> tokens b \<le> capacity"
    using Cons.prems by (rule allowRequest_le_capacity)
  then have "\<forall>k' b. snd (allowRequests calls (snd (allowRequest created now k bs))) k' = Some b
               \<longrightarrow> tokens b \<le> capacity"
    by (rule Cons.IH)
  then show ?case by (simp add: call split_def Let_def)
qed

lemma allowRequest_fresh:
  assumes "bs k = None" "created \<le> now"
  shows "snd (allowRequest created now k bs) k
           = Some \<lparr>tokens = capacity - 1, lastRefillTime = now\<rparr>"
proof -
  define add where
    "add = js_mul (js_div (js_sub (of_int now) (of_int created)) refillInterval) refillRate"
  have "0 \<le> add"
    unfolding add_def using assms(2) by (rule tokensToAdd_nonneg)
  then have "real_of_int 100 \<le> toDouble (capacity + add)"
    by (intro toDouble_ge_int) (simp_all add: capacity_def)
  then have "capacity \<le> js_add capacity add"
    by (simp add: js_add_def capacity_def)
  then have "refillBucket now \<lparr>tokens = capacity, lastRefillTime = created\<rparr>
               = \<lparr>tokens = capacity, lastRefillTime = now\<rparr>"
    by (simp add: refillBucket_def Let_def add_def)
  then show ?thesis
    using assms(1) by (simp add: allowRequest_def Let_def capacity_def js_sub_def)
qed

text \<open>
  Claim C10, as amended. When every bucket starts within \<open>0 \<le> tokens \<le> capacity\<close> and
  the clock readings never go backwards (the readings of the calls are sorted, and no
  bucket was refilled later than the first of them), every bucket stays within
  \<open>0 \<le> tokens \<le> capacity\<close> after any sequence of \<open>allowRequest\<close> calls to any keys.
  The upper bound needs no assumption on the clock: a refill always clamps at capacity.
  A fresh bucket starts at capacity and its first call consumes exactly one token.
\<close>

theorem token_count_in_range:
  "(buckets_ok t0 bs \<and> sorted (t0 # clock_readings calls) \<longrightarrow>
      (\<forall>k b. snd (allowRequests calls bs) k = Some b \<longrightarrow> 0 \<le> tokens b \<and> tokens b \<le> capacity))
   \<and> ((\<forall>k b. bs k = Some b \<longrightarrow> tokens b \<le> capacity) \<longrightarrow>
      (\<forall>k b. snd (allowRequests calls bs) k = Some b \<longrightarrow> tokens b \<le> capacity))
   \<and> tokens (refillBucket now b0) \<le> capacity
   \<and> (bs k0 = None \<and> created \<le> now \<longrightarrow>
        snd (allowRequest created now k0 bs) k0
          = Some \<lparr>tokens = capacity - 1, lastRefillTime = now\<rparr>)"
proof (intro conjI impI)
  assume a: "buckets_ok t0 bs \<and> sorted (t0 # clock_readings calls)"
  then obtain t' where "buckets_ok t' (snd (allowRequests calls bs))"
    using allowRequests_ok [of t0 bs calls] by blast
  then show "\<forall>k b. snd (allowRequests calls bs) k = Some b \<longrightarrow> 0 \<le> tokens b \<and> tokens b \<le> capacity"
    by (simp add: buckets_ok_def bucket_ok_def)
next
  assume "\<forall>k b. bs k = Some b \<longrightarrow> tokens b \<le> capacity"
  then show "\<forall>k b. snd (allowRequests calls bs) k = Some b \<longrightarrow> tokens b \<le> capacity"
    by (rule allowRequests_le_capacity)
next
  show "tokens (refillBucket now b0) \<le> capacity"
    by (rule refillBucket_le_capacity)
next
  assume "bs k0 = None \<and> created \<le> now"
  then show "snd (allowRequest created now k0 bs) k0
          = Some \<lparr>tokens = capacity - 1, lastRefillTime = now\<rparr>"
    using allowRequest_fresh [of bs k0 created now] by simp
qed

theorem token_count_in_range_witness:
  "buckets_ok 0 Map.empty
   \<and> sorted (0 # clock_readings [(0, 0, ''a''), (0, 50, ''a''), (60, 60, ''b'')])
   \<and> snd (allowRequests [(0, 0, ''a''), (0, 50, ''a''), (60, 60, ''b'')] Map.empty) ''a''
       = Some \<lparr>tokens = 98.5, lastRefillTime = 50\<rparr>
   \<and> 0 \<le> tokens \<lparr>tokens = 98.5, lastRefillTime = 50\<rparr>
   \<and> tokens \<lparr>tokens = 98.5, lastRefillTime = 50\<rparr> \<le> capacity
   \<and> snd (allowRequests [(0, 0, ''a''), (0, 50, ''a''), (60, 60, ''b'')] Map.empty) ''b''
       = Some \<lparr>tokens = capacity - 1, lastRefillTime = 60\<rparr>"
proof -
  let ?calls = "[(0, 0, ''a''), (0, 50, ''a''), (60, 60, ''b'')]"
  let ?mid = "snd (allowRequests [(0, 0, ''a''), (0, 50, ''a'')] Map.empty)"
  have ok: "buckets_ok 0 Map.empty"
    by (simp add: buckets_ok_def)
  have srt: "sorted (0 # clock_readings ?calls)"
    by (simp add: clock_readings_def)
  have first: "snd (allowRequest 0 0 ''a'' Map.empty)
                 = [''a'' \<mapsto> \<lparr>tokens = 99, lastRefillTime = 0\<rparr>]"
    by (simp add: allowRequest_fresh_steady)
  have d1: "js_div 50 1000 = real_of_int 7205759403792794 * 2 powi (- 57)"
    unfolding js_div_def by (rule toDouble_eval_near [where e = "- 5"]) simp_all
  have d2: "js_mul (real_of_int 7205759403792794 * 2 powi (- 57)) 10 = 1 / 2"
    unfolding js_mul_def
    using toDouble_eval_near [where e = "- 1" and m = "- 53" and n = 4503599627370496
      and x = "real_of_int 7205759403792794 * 2 powi (- 57) * 10"]
    by simp
  have d3: "js_add 99 (1 / 2) = 199 / 2"
    unfolding js_add_def using toDouble_exact [of 199 "- 1"] by simp
  have d4: "js_sub (199 / 2) 1 = 197 / 2"
    unfolding js_sub_def using toDouble_exact [of 197 "- 1"] by simp
  have d0: "js_sub 50 0 = 50" by (simp add: js_sub_def)
  have add: "js_add 99 (js_mul (js_div (js_sub 50 0) 1000) 10) = 199 / 2"
    unfolding d0 d1 d2 d3 ..
  have second: "snd (allowRequest 0 50 ''a'' [''a'' \<mapsto> \<lparr>tokens = 99, lastRefillTime = 0\<rparr>])
                  = [''a'' \<mapsto> \<lparr>tokens = 98.5, lastRefillTime = 50\<rparr>]"
    by (simp add: allowRequest_def refillBucket_def capacity_def refillRate_def
        refillInterval_def Let_def add d4)
  have mid: "?mid = [''a'' \<mapsto> \<lparr>tokens = 98.5, lastRefillTime = 50\<rparr>]"
    by (simp add: split_def Let_def first second)
  have last: "snd (allowRequests ?calls Map.empty) = snd (allowRequest 60 60 ''b'' ?mid)"
    by (simp add: split_def Let_def)
  have fresh: "snd (allowRequest 60 60 ''b'' ?mid) ''b''
                 = Some \<lparr>tokens = capacity - 1, lastRefillTime = 60\<rparr>"
    using token_count_in_range [where bs = ?mid and ?k0.0 = "''b''" and created = 60 and now = 60]
    unfolding mid by simp
  have a: "snd (allowRequests ?calls Map.empty) ''a''
             = Some \<lparr>tokens = 98.5, lastRefillTime = 50\<rparr>"
    unfolding last mid by (simp add: allowRequest_def Let_def split: if_splits)
  have "\<forall>k b. snd (allowRequests ?calls Map.empty) k = Some b
           \<longrightarrow> 0 \<le> tokens b \<and> tokens b \<le> capacity"
    using token_count_in_range [where ?t0.0 = 0 and bs = Map.empty and calls = ?calls] ok srt
    by blast
  then have "0 \<le> tokens \<lparr>tokens = 98.5, lastRefillTime = 50\<rparr>
             \<and> tokens \<lparr>tokens = 98.5, lastRefillTime = 50\<rparr> \<le> capacity"
    using a by blast
  then show ?thesis using ok srt a fresh last by simp
qed

text \<open>
  The claim as stated (any sequence of times) fails when the clock is set back between two
  calls: the refill adds a negative amount.
\<close>

theorem token_count_negative_counterexample:
  "snd (allowRequests [(20000, 20000, ''a''), (0, 0, ''a'')] Map.empty) ''a''
     = Some \<lparr>tokens = - 101, lastRefillTime = 0\<rparr>
   \<and> \<not> 0 \<le> tokens \<lparr>tokens = - 101, lastRefillTime = 0\<rparr>"
  by (simp add: allowRequest_def refillBucket_def capacity_def refillRate_def
      refillInterval_def Let_def js_sub_def js_div_def js_mul_def js_add_def)

text \<open>
  Claim C6, at the input where the code departs from it. After the first call of a fresh
  key the bucket holds 99 tokens, so a token is available, and \<open>getRetryAfter\<close> returns
  \<open>ceil((1 - 99) / 10) = -9\<close> where the claim says 0: only the unknown key is guarded.
\<close>

theorem getRetryAfter_available_tokens:
  "snd (allowRequest 0 0 ''a'' Map.empty) ''a'' = Some \<lparr>tokens = 99, lastRefillTime = 0\<rparr>
   \<and> 1 \<le> tokens \<lparr>tokens = 99, lastRefillTime = 0\<rparr>
   \<and> getRetryAfter ''a'' (snd (allowRequest 0 0 ''a'' Map.empty)) = - 9
   \<and> getRetryAfter ''a'' (snd (allowRequest 0 0 ''a'' Map.empty)) \<noteq> 0"
proof -
  have first: "snd (allowRequest 0 0 ''a'' Map.empty)
                 = [''a'' \<mapsto> \<lparr>tokens = 99, lastRefillTime = 0\<rparr>]"
    by (simp add: allowRequest_fresh_steady)
  have "js_div (- 98) 10 = real_of_int (- 5516909543528858) * 2 powi (- 49)"
    unfolding js_div_def by (rule toDouble_eval_near [where e = 3]) simp_all
  moreover have "\<lceil>real_of_int (- 5516909543528858) * 2 powi (- 49)\<rceil> = - 9"
    by (simp add: ceiling_eq_iff)
  ultimately have "getRetryAfter ''a'' [''a'' \<mapsto> \<lparr>tokens = 99, lastRefillTime = 0\<rparr>] = - 9"
    by (simp add: getRetryAfter_def refillRate_def js_sub_def)
  then show ?thesis unfolding first by simp
qed

section \<open>In-memory cache (class CacheService)\<close>

text \<open>
  Cached values are arbitrary JavaScript values; the model keeps the shapes whose
  truthiness differs, since \<open>getOrSet\<close> tests the cached value with \<open>if (cached)\<close>.
  A miss is the value \<open>null\<close>, as in the source.
\<close>

datatype jsvalue =
    JNull
  | JUndefined
  | JBool bool
  | JNum real
  | JStr string
  | JObj "(string \<times> jsvalue) list"

fun truthy :: "jsvalue \<Rightarrow> bool" where
  "truthy JNull = False"
| "truthy JUndefined = False"
| "truthy (JBool b) = b"
| "truthy (JNum x) = (x \<noteq> 0)"
| "truthy (JStr s) = (s \<noteq> [])"
| "truthy (JObj props) = True"

record CacheItem =
  item_value :: jsvalue
  expires :: real

record CacheOptions =
  ttl :: "real option"
  namespace :: "string option"

type_synonym cache = "string \<rightharpoonup> CacheItem"

text \<open>\<open>get\<close> reads the clock (\<open>now\<close>) when the key is present.\<close>

definition get :: "int \<Rightarrow> string \<Rightarrow> cache \<Rightarrow> jsvalue \<times> cache" where
  "get now key c =
     (case c key of
        None \<Rightarrow> (JNull, c)
      | Some item \<Rightarrow>
          if real_of_int now > expires item then (JNull, c(key := None))
          else (item_value item, c))"

text \<open>
  \<open>options.ttl || 300\<close> and \<open>options.namespace ? ... : ''\<close>: an absent field and a falsy
  one (0, the empty string) take the same branch.
\<close>

definition set_cache :: "int \<Rightarrow> string \<Rightarrow> jsvalue \<Rightarrow> CacheOptions \<Rightarrow> cache \<Rightarrow> cache" where
  "set_cache now key v options c =
     (let ttl' = (case ttl options of None \<Rightarrow> 300 | Some t \<Rightarrow> if t = 0 then 300 else t);
          ns = (case namespace options of
                  None \<Rightarrow> []
                | Some n \<Rightarrow> if n = [] then [] else n @ '':'');
          finalKey = ns @ key
      in c(finalKey \<mapsto>
           \<lparr>item_value = v, expires = js_add (real_of_int now) (js_mul ttl' 1000)\<rparr>))"

text \<open>
  A reading of \<open>Date.now()\<close>: milliseconds since the epoch, at most the largest time value
  of ECMAScript. A double holds every such integer, and every difference of two, exactly.
\<close>

definition isTimeValue :: "int \<Rightarrow> bool" where
  "isTimeValue t = (0 \<le> t \<and> t \<le> 8640000000000000)"



subsection \<open>Properties of the cache\<close>

lemma isTimeValue_bound:
  "isTimeValue t \<Longrightarrow> \<bar>t\<bar> \<le> 2 ^ 53"
proof -
  assume "isTimeValue t"
  then have "\<bar>t\<bar> \<le> 9007199254740992"
    unfolding isTimeValue_def by linarith
  then show ?thesis by simp
qed

lemma isTimeValue_diff_bound:
  "isTimeValue t \<Longrightarrow> isTimeValue t' \<Longrightarrow> \<bar>t' - t\<bar> \<le> 2 ^ 53"
proof -
  assume "isTimeValue t" "isTimeValue t'"
  then have "\<bar>t' - t\<bar> \<le> 9007199254740992"
    unfolding isTimeValue_def by linarith
  then show ?thesis by simp
qed

lemma set_cache_plain:
  assumes "namespace options = None \<or> namespace options = Some []"
    and "ttl options = Some t \<and> t \<noteq> 0 \<or> (ttl options = None \<or> ttl options = Some 0) \<and> t = 300"
  shows "set_cache now k v options c
           = c(k \<mapsto> \<lparr>item_value = v, expires = js_add (real_of_int now) (js_mul t 1000)\<rparr>)"
  using assms by (auto simp: set_cache_def Let_def)

lemma expires_ge_now:
  assumes "0 \<le> t" "isTimeValue now"
  shows "real_of_int now \<le> js_add (real_of_int now) (js_mul t 1000)"
proof -
  have "0 \<le> js_mul t 1000"
    unfolding js_mul_def using assms(1) by (intro toDouble_nonneg) simp
  then show ?thesis
    unfolding js_add_def using assms(2)
    by (intro toDouble_ge_int isTimeValue_bound) simp_all
qed

lemma expires_ge_within:
  assumes "0 \<le> t" "isTimeValue now" "isTimeValue now'"
    and "real_of_int now' \<le> real_of_int now + t * 1000"
  shows "real_of_int now' \<le> js_add (real_of_int now) (js_mul t 1000)"
proof (cases "now' \<le> now")
  case True
  then have "real_of_int now' \<le> real_of_int now" by simp
  then show ?thesis using expires_ge_now [OF assms(1,2)] by linarith
next
  case False
  have "real_of_int (now' - now) \<le> t * 1000" using assms(4) by simp
  then have "real_of_int (now' - now) \<le> js_mul t 1000"
    unfolding js_mul_def using assms(2,3)
    by (intro toDouble_ge_int isTimeValue_diff_bound)
  then have "real_of_int now' \<le> real_of_int now + js_mul t 1000" by simp
  then show ?thesis
    unfolding js_add_def using assms(3) by (intro toDouble_ge_int isTimeValue_bound)
qed

lemma expires_whole_ms:
  assumes "t * 1000 = real_of_int m" "isTimeValue now" "isTimeValue (now + m)"
  shows "js_add (real_of_int now) (js_mul t 1000) = real_of_int (now + m)"
proof -
  have "\<bar>m\<bar> \<le> 2 ^ 53"
    using isTimeValue_diff_bound [OF assms(2,3)] by simp
  then have "js_mul t 1000 = real_of_int m"
    unfolding js_mul_def assms(1) by (rule toDouble_of_int)
  moreover have "toDouble (real_of_int (now + m)) = real_of_int (now + m)"
    using assms(3) by (intro toDouble_of_int isTimeValue_bound)
  ultimately show ?thesis by (simp add: js_add_def)
qed

text \<open>
  Claim C7, as amended. With no namespace (absent or empty), a ttl \<open>t > 0\<close> seconds and
  clock readings that are time values, \<open>set(k, v, {ttl: t})\<close> followed by \<open>get(k)\<close> at the same
  clock reading, or at any reading up to \<open>t * 1000\<close> ms later, returns \<open>v\<close> and leaves the
  entry in place. When \<open>t\<close> is a whole number \<open>m\<close> of milliseconds and the expiry instant
  \<open>now + m\<close> is still a time value, a \<open>get(k)\<close> more than \<open>t * 1000\<close> ms after the set returns
  \<open>null\<close> and removes the entry. A ttl that is absent or 0 counts as 300 seconds.
\<close>

theorem set_then_get:
  assumes nons: "namespace options = None \<or> namespace options = Some []"
    and ttl: "ttl options = Some t \<and> 0 < t \<or> (ttl options = None \<or> ttl options = Some 0) \<and> t = 300"
    and clock: "isTimeValue now"
  shows "get now k (set_cache now k v options c) = (v, set_cache now k v options c)
       \<and> (isTimeValue now' \<and> real_of_int now' \<le> real_of_int now + t * 1000 \<longrightarrow>
            get now' k (set_cache now k v options c) = (v, set_cache now k v options c))
       \<and> (t * 1000 = real_of_int m \<and> isTimeValue (now + m)
            \<and> real_of_int now' > real_of_int now + t * 1000 \<longrightarrow>
            get now' k (set_cache now k v options c)
              = (JNull, (set_cache now k v options c)(k := None)))"
proof -
  have pos: "0 \<le> t" using ttl by auto
  have s: "set_cache now k v options c
             = c(k \<mapsto> \<lparr>item_value = v, expires = js_add (real_of_int now) (js_mul t 1000)\<rparr>)"
    using nons ttl by (intro set_cache_plain) auto
  have immediate: "get now k (set_cache now k v options c) = (v, set_cache now k v options c)"
    unfolding s using expires_ge_now [OF pos clock] by (simp add: get_def)
  have within: "get now' k (set_cache now k v options c) = (v, set_cache now k v options c)"
    if "isTimeValue now' \<and> real_of_int now' \<le> real_of_int now + t * 1000"
    unfolding s using expires_ge_within [of t now now'] pos clock that by (simp add: get_def)
  have after: "get now' k (set_cache now k v options c)
              = (JNull, (set_cache now k v options c)(k := None))"
    if "t * 1000 = real_of_int m \<and> isTimeValue (now + m)
            \<and> real_of_int now' > real_of_int now + t * 1000"
  proof -
    have "js_add (real_of_int now) (js_mul t 1000) = real_of_int (now + m)"
      using that clock by (intro expires_whole_ms) simp_all
    moreover have "real_of_int (now + m) < real_of_int now'" using that by simp
    ultimately show ?thesis unfolding s by (simp add: get_def)
  qed
  show ?thesis using immediate within after by blast
qed

theorem set_then_get_witness:
  "get 5000 ''k'' (set_cache 5000 ''k'' (JStr ''v'') \<lparr>ttl = Some 1, namespace = None\<rparr> Map.empty)
     = (JStr ''v'', [''k'' \<mapsto> \<lparr>item_value = JStr ''v'', expires = 6000\<rparr>])
   \<and> get 6000 ''k'' (set_cache 5000 ''k'' (JStr ''v'') \<lparr>ttl = Some 1, namespace = None\<rparr> Map.empty)
     = (JStr ''v'', [''k'' \<mapsto> \<lparr>item_value = JStr ''v'', expires = 6000\<rparr>])
   \<and> get 6001 ''k'' (set_cache 5000 ''k'' (JStr ''v'') \<lparr>ttl = Some 1, namespace = None\<rparr> Map.empty)
     = (JNull, Map.empty)"
  using set_then_get [of "\<lparr>ttl = Some 1, namespace = None\<rparr>" 1 5000 "''k''" "JStr ''v''"
      Map.empty 6000 1000]
    set_then_get [of "\<lparr>ttl = Some 1, namespace = None\<rparr>" 1 5000 "''k''" "JStr ''v''"
      Map.empty 6001 1000]
  by (simp add: set_cache_def Let_def isTimeValue_def js_add_def js_mul_def)

text \<open>
  The claim as stated (every ttl) fails for a ttl of 0, which is replaced by 300 seconds,
  so the entry is still served one second later; for a negative ttl, whose entry has
  expired by the time of an immediate read; and for a ttl that is not a whole number of
  milliseconds, where the expiry instant is rounded to a double: with the ttl the double
  nearest to 0.00099999 s, set at 1700000000000, the entry expires at 1700000000001 and
  is still served at that reading, more than 0.99999 ms after the set.
\<close>

lemma expires_rounded_up:
  "js_add 1700000000000 (js_mul (real_of_int 4611639901567204 * 2 powi (- 62)) 1000)
     = 1700000000001"
proof -
  have a: "js_mul (real_of_int 4611639901567204 * 2 powi (- 62)) 1000
             = real_of_int 9007109182748445 * 2 powi (- 53)"
    unfolding js_mul_def by (rule toDouble_eval_near [where e = "- 1"]) simp_all
  have b: "js_add 1700000000000 (real_of_int 9007109182748445 * 2 powi (- 53))
             = real_of_int 6963200000004096 * 2 powi (- 12)"
    unfolding js_add_def by (rule toDouble_eval_near [where e = 40]) simp_all
  show ?thesis unfolding a b by simp
qed

theorem set_then_get_ttl_counterexample:
  "fst (get 1000 ''k''
          (set_cache 0 ''k'' (JStr ''v'') \<lparr>ttl = Some 0, namespace = None\<rparr> Map.empty))
     = JStr ''v''
   \<and> fst (get 0 ''k''
          (set_cache 0 ''k'' (JStr ''v'') \<lparr>ttl = Some (- 1), namespace = None\<rparr> Map.empty))
     = JNull
   \<and> fst (get 1700000000001 ''k''
          (set_cache 1700000000000 ''k'' (JStr ''v'')
             \<lparr>ttl = Some (real_of_int 4611639901567204 * 2 powi (- 62)), namespace = None\<rparr>
             Map.empty))
     = JStr ''v''
   \<and> real_of_int 1700000000000 + real_of_int 4611639901567204 * 2 powi (- 62) * 1000
       < real_of_int 1700000000001"
proof -
  have a: "fst (get 1000 ''k''
          (set_cache 0 ''k'' (JStr ''v'') \<lparr>ttl = Some 0, namespace = None\<rparr> Map.empty))
     = JStr ''v''"
    by (simp add: get_def set_cache_def Let_def js_add_def js_mul_def)
  have b: "fst (get 0 ''k''
          (set_cache 0 ''k'' (JStr ''v'') \<lparr>ttl = Some (- 1), namespace = None\<rparr> Map.empty))
     = JNull"
    by (simp add: get_def set_cache_def Let_def js_add_def js_mul_def)
  have c: "fst (get 1700000000001 ''k''
          (set_cache 1700000000000 ''k'' (JStr ''v'')
             \<lparr>ttl = Some (real_of_int 4611639901567204 * 2 powi (- 62)), namespace = None\<rparr>
             Map.empty))
     = JStr ''v''"
    using expires_rounded_up
    by (simp add: get_def set_cache_def Let_def del: power_int_numeral_neg_numeral)
  have d: "real_of_int 1700000000000 + real_of_int 4611639901567204 * 2 powi (- 62) * 1000
       < real_of_int 1700000000001"
    by simp
  show ?thesis using a b c d by blast
qed









section \<open>Retry with backoff (apps/api/src/services/retry-mechanism.ts)\<close>

text \<open>
  The operation \<open>fn\<close> may answer differently each time it is invoked; it is modelled by
  the outcome of its \<open>k\<close>-th invocation (\<open>Inl\<close> a rejection with the value thrown, \<open>Inr\<close> a
  result). The loop invokes it once per attempt, so the \<open>k\<close>-th invocation is the one of
  attempt \<open>k\<close>. A rejection can carry any JavaScript value, a falsy one included. The
  observer \<open>onRetry\<close> returns \<open>None\<close> when it returns normally and \<open>Some e\<close> when it throws
  \<open>e\<close>. What the function does to the outside world is recorded as a trace of events.
\<close>

record RetryOptions =
  maxAttempts :: "real option"
  delay :: "real option"
  backoff :: "real option"
  onRetry :: "(int \<Rightarrow> jsvalue \<Rightarrow> jsvalue option) option"

datatype retry_error = Thrown jsvalue | MaxRetriesExceeded

datatype event = Invoke int | OnRetry int jsvalue | Sleep real

text \<open>The three \<open>options.x || default\<close> lines: an absent field and 0 give the default.\<close>

definition maxAttemptsOf :: "RetryOptions \<Rightarrow> real" where
  "maxAttemptsOf options = (case maxAttempts options of None \<Rightarrow> 3 | Some m \<Rightarrow> if m = 0 then 3 else m)"

definition delayOf :: "RetryOptions \<Rightarrow> real" where
  "delayOf options = (case delay options of None \<Rightarrow> 1000 | Some d \<Rightarrow> if d = 0 then 1000 else d)"

definition backoffOf :: "RetryOptions \<Rightarrow> real" where
  "backoffOf options = (case backoff options of None \<Rightarrow> 1 | Some b \<Rightarrow> if b = 0 then 1 else b)"

text \<open>
  \<open>Math.pow\<close> for a whole exponent, taken to be correctly rounded, and
  \<open>delay * Math.pow(backoff, attempt - 1)\<close>.
\<close>

definition js_pow :: "real \<Rightarrow> int \<Rightarrow> real" where
  "js_pow x k = toDouble (x powi k)"

definition backoffDelay :: "real \<Rightarrow> real \<Rightarrow> int \<Rightarrow> real" where
  "backoffDelay d b attempt = js_mul d (js_pow b (attempt - 1))"

text \<open>\<open>throw lastError || new Error('Max retries exceeded')\<close>.\<close>

definition raiseLast :: "jsvalue option \<Rightarrow> retry_error" where
  "raiseLast lastError =
     (case lastError of
        None \<Rightarrow> MaxRetriesExceeded
      | Some e \<Rightarrow> if truthy e then Thrown e else MaxRetriesExceeded)"

text \<open>
  The \<open>for\<close> loop from \<open>attempt\<close> on, with the current \<open>lastError\<close>. The loop is left either
  by \<open>break\<close>, when \<open>attempt === maxAttempts\<close>, or by its condition; both ways lead to the
  final \<open>throw\<close>. An exception of the observer leaves the function at once.
\<close>

function retry_loop ::
  "(int \<Rightarrow> jsvalue + 'a) \<Rightarrow> real \<Rightarrow> real \<Rightarrow> real \<Rightarrow> (int \<Rightarrow> jsvalue \<Rightarrow> jsvalue option) option
     \<Rightarrow> int \<Rightarrow> jsvalue option \<Rightarrow> (retry_error + 'a) \<times> event list" where
  "retry_loop fn n d b observer attempt lastError =
     (if real_of_int attempt \<le> n then
        (case fn attempt of
           Inr v \<Rightarrow> (Inr v, [Invoke attempt])
         | Inl error \<Rightarrow>
             if real_of_int attempt = n then (Inl (raiseLast (Some error)), [Invoke attempt])
             else
               (case observer of
                  None \<Rightarrow>
                    (let (r, evs) = retry_loop fn n d b observer (attempt + 1) (Some error)
                     in (r, Invoke attempt # Sleep (backoffDelay d b attempt) # evs))
                | Some cb \<Rightarrow>
                    (case cb attempt error of
                       Some thrown \<Rightarrow> (Inl (Thrown thrown), [Invoke attempt, OnRetry attempt error])
                     | None \<Rightarrow>
                         (let (r, evs) = retry_loop fn n d b observer (attempt + 1) (Some error)
                          in (r, Invoke attempt # OnRetry attempt error
                                   # Sleep (backoffDelay d b attempt) # evs)))))
      else (Inl (raiseLast lastError), []))"
  by pat_completeness auto
termination
proof (relation "measure (\<lambda>(fn, n, d, b, observer, attempt, lastError). nat (\<lfloor>n\<rfloor> + 1 - attempt))")
  show "wf (measure (\<lambda>(fn, n, d, b, observer, attempt, lastError). nat (\<lfloor>n\<rfloor> + 1 - attempt)))"
    by simp
next
  fix fn :: "int \<Rightarrow> jsvalue + 'a" and n d b :: real
    and observer :: "(int \<Rightarrow> jsvalue \<Rightarrow> jsvalue option) option"
    and attempt :: int and lastError :: "jsvalue option" and a :: jsvalue
  assume "real_of_int attempt \<le> n"
  then have "attempt \<le> \<lfloor>n\<rfloor>" by linarith
  then show "((fn, n, d, b, observer, attempt + 1, Some a), fn, n, d, b, observer, attempt, lastError)
              \<in> measure (\<lambda>(fn, n, d, b, observer, attempt, lastError). nat (\<lfloor>n\<rfloor> + 1 - attempt))"
    by simp
next
  fix fn :: "int \<Rightarrow> jsvalue + 'a" and n d b :: real
    and observer :: "(int \<Rightarrow> jsvalue \<Rightarrow> jsvalue option) option"
    and attempt :: int and lastError :: "jsvalue option" and a :: jsvalue
  assume "real_of_int attempt \<le> n"
  then have "attempt \<le> \<lfloor>n\<rfloor>" by linarith
  then show "((fn, n, d, b, observer, attempt + 1, Some a), fn, n, d, b, observer, attempt, lastError)
              \<in> measure (\<lambda>(fn, n, d, b, observer, attempt, lastError). nat (\<lfloor>n\<rfloor> + 1 - attempt))"
    by simp
qed

definition retry ::
  "(int \<Rightarrow> jsvalue + 'a) \<Rightarrow> RetryOptions \<Rightarrow> (retry_error + 'a) \<times> event list" where
  "retry fn options =
     retry_loop fn (maxAttemptsOf options) (delayOf options) (backoffOf options)
       (onRetry options) 1 None"

text \<open>
  The events of an attempt \<open>k\<close> that fails with \<open>e\<close> and is retried: the invocation, the
  observer's call when there is an observer, and the wait.
\<close>

definition retry_round ::
  "(int \<Rightarrow> jsvalue \<Rightarrow> jsvalue option) option \<Rightarrow> real \<Rightarrow> real \<Rightarrow> int \<Rightarrow> jsvalue \<Rightarrow> event list" where
  "retry_round observer d b k e =
     Invoke k # (case observer of None \<Rightarrow> [] | Some cb \<Rightarrow> [OnRetry k e])
       @ [Sleep (backoffDelay d b k)]"

fun isInvoke :: "event \<Rightarrow> bool" where
  "isInvoke (Invoke k) = True"
| "isInvoke (OnRetry k e) = False"
| "isInvoke (Sleep ms) = False"

subsection \<open>Properties of retry\<close>

declare retry_loop.simps [simp del]

lemma retry_loop_past_end:
  "n < real_of_int a \<Longrightarrow> retry_loop fn n d b observer a prev = (Inl (raiseLast prev), [])"
  by (subst retry_loop.simps) simp

lemma retry_loop_success:
  "real_of_int a \<le> n \<Longrightarrow> fn a = Inr v
     \<Longrightarrow> retry_loop fn n d b observer a prev = (Inr v, [Invoke a])"
  by (subst retry_loop.simps) simp

lemma retry_loop_last_failure:
  "fn a = Inl e \<Longrightarrow> real_of_int a = n
     \<Longrightarrow> retry_loop fn n d b observer a prev = (Inl (raiseLast (Some e)), [Invoke a])"
  by (subst retry_loop.simps) simp

lemma retry_loop_retry:
  assumes "real_of_int a < n" "fn a = Inl e" "\<forall>cb. observer = Some cb \<longrightarrow> cb a e = None"
  shows "retry_loop fn n d b observer a prev =
           (fst (retry_loop fn n d b observer (a + 1) (Some e)),
            retry_round observer d b a e @ snd (retry_loop fn n d b observer (a + 1) (Some e)))"
  using assms
  by (subst retry_loop.simps) (auto simp: retry_round_def split_def Let_def split: option.splits)

lemma retry_loop_observer_throws:
  assumes "real_of_int a < n" "fn a = Inl e" "observer = Some cb" "cb a e = Some thrown"
  shows "retry_loop fn n d b observer a prev = (Inl (Thrown thrown), [Invoke a, OnRetry a e])"
  using assms by (subst retry_loop.simps) simp

lemma retry_loop_invocations:
  "length (filter isInvoke (snd (retry_loop fn n d b observer a prev))) \<le> nat (\<lfloor>n\<rfloor> + 1 - a)"
proof (induction "nat (\<lfloor>n\<rfloor> + 1 - a)" arbitrary: a prev)
  case 0
  then have "n < real_of_int a" by linarith
  then show ?case by (simp add: retry_loop_past_end)
next
  case (Suc m)
  then have le: "real_of_int a \<le> n" by linarith
  show ?case
  proof (cases "fn a")
    case (Inr v)
    then show ?thesis using le Suc.hyps(2) by (simp add: retry_loop_success)
  next
    case (Inl e)
    show ?thesis
    proof (cases "real_of_int a = n")
      case True
      then show ?thesis using Inl Suc.hyps(2) by (simp add: retry_loop_last_failure)
    next
      case False
      then have lt: "real_of_int a < n" using le by simp
      have m: "m = nat (\<lfloor>n\<rfloor> + 1 - (a + 1))" using Suc.hyps(2) by simp
      have IH: "length (filter isInvoke (snd (retry_loop fn n d b observer (a + 1) (Some e))))
                  \<le> nat (\<lfloor>n\<rfloor> + 1 - (a + 1))"
        using Suc.hyps(1) [OF m] .
      show ?thesis
      proof (cases "\<exists>cb thrown. observer = Some cb \<and> cb a e = Some thrown")
        case True
        then obtain cb thrown where "observer = Some cb" "cb a e = Some thrown" by blast
        then show ?thesis
          using lt Inl Suc.hyps(2) by (simp add: retry_loop_observer_throws)
      next
        case False
        then have quiet: "\<forall>cb. observer = Some cb \<longrightarrow> cb a e = None"
          by (metis not_Some_eq)
        have "length (filter isInvoke (retry_round observer d b a e)) = 1"
          by (simp add: retry_round_def split: option.splits)
        moreover have "retry_loop fn n d b observer a prev =
           (fst (retry_loop fn n d b observer (a + 1) (Some e)),
            retry_round observer d b a e @ snd (retry_loop fn n d b observer (a + 1) (Some e)))"
          using lt Inl quiet by (rule retry_loop_retry)
        ultimately show ?thesis
          using IH Suc.hyps(2) by simp
      qed
    qed
  qed
qed

lemma retry_loop_trace:
  assumes quiet: "\<forall>cb k e. observer = Some cb \<longrightarrow> cb k e = None"
    and fails: "\<forall>k. a \<le> k \<and> k < j \<longrightarrow> fn k = Inl (err k)"
    and aj: "a \<le> j" and jn: "j \<le> n"
    and final: "fn j = Inr v \<and> r = Inr v
                \<or> j = n \<and> fn n = Inl (err n) \<and> r = Inl (raiseLast (Some (err n)))"
  shows "retry_loop fn (real_of_int n) d b observer a prev
           = (r, concat (map (\<lambda>k. retry_round observer d b k (err k)) [a..j - 1]) @ [Invoke j])"
  using fails aj
proof (induction "nat (j - a)" arbitrary: a prev)
  case 0
  then have "a = j" by simp
  then show ?case
    using final jn by (auto simp: retry_loop_success retry_loop_last_failure)
next
  case (Suc m)
  then have lt: "a < j" by simp
  then have an: "real_of_int a < real_of_int n" using jn by simp
  have fa: "fn a = Inl (err a)" using Suc.prems(1) lt by simp
  have q: "\<forall>cb. observer = Some cb \<longrightarrow> cb a (err a) = None" using quiet by blast
  have m: "m = nat (j - (a + 1))" using Suc.hyps(2) by simp
  have rest: "retry_loop fn (real_of_int n) d b observer (a + 1) (Some (err a))
           = (r, concat (map (\<lambda>k. retry_round observer d b k (err k)) [a + 1..j - 1]) @ [Invoke j])"
    using Suc.hyps(1) [OF m] Suc.prems(1) lt by simp
  have up: "[a..j - 1] = a # [a + 1..j - 1]"
    using lt by (simp add: upto_rec1)
  have "retry_loop fn (real_of_int n) d b observer a prev =
           (fst (retry_loop fn (real_of_int n) d b observer (a + 1) (Some (err a))),
            retry_round observer d b a (err a)
              @ snd (retry_loop fn (real_of_int n) d b observer (a + 1) (Some (err a))))"
    using an fa q by (rule retry_loop_retry)
  then show ?case
    by (simp add: rest up)
qed

lemma backoffDelay_constant:
  "backoffDelay d 1 k = toDouble d"
  by (simp add: backoffDelay_def js_mul_def js_pow_def)

lemma backoffDelay_mono:
  assumes "1 \<le> k" "0 \<le> d" "1 \<le> b"
  shows "backoffDelay d b k \<le> backoffDelay d b (k + 1)"
proof -
  have "b powi (k - 1) \<le> b powi k"
    using assms(3) by (intro power_int_increasing) simp_all
  then have "toDouble (b powi (k - 1)) \<le> toDouble (b powi k)"
    by (rule toDouble_mono)
  then have "d * toDouble (b powi (k - 1)) \<le> d * toDouble (b powi k)"
    using assms(2) by (rule mult_left_mono)
  then have "toDouble (d * toDouble (b powi (k - 1))) \<le> toDouble (d * toDouble (b powi k))"
    by (rule toDouble_mono)
  then show ?thesis
    by (simp add: backoffDelay_def js_mul_def js_pow_def)
qed

lemma backoffDelay_exact:
  assumes k: "1 \<le> k" and D: "1 \<le> D" and B: "1 \<le> B"
    and bound: "D * B ^ nat (k - 1) \<le> 2 ^ 53"
  shows "backoffDelay (of_int D) (of_int B) k = of_int (D * B ^ nat (k - 1))"
proof -
  have pos: "0 < B ^ nat (k - 1)" using B by simp
  have "1 * B ^ nat (k - 1) \<le> D * B ^ nat (k - 1)"
    using D pos by (intro mult_right_mono) simp_all
  then have "B ^ nat (k - 1) \<le> D * B ^ nat (k - 1)" by simp
  then have "\<bar>B ^ nat (k - 1)\<bar> \<le> 2 ^ 53" using bound pos by linarith
  then have "toDouble (real_of_int (B ^ nat (k - 1))) = real_of_int (B ^ nat (k - 1))"
    by (rule toDouble_of_int)
  moreover have "real_of_int B powi (k - 1) = real_of_int (B ^ nat (k - 1))"
    using k by (simp add: power_int_def)
  ultimately have p: "js_pow (of_int B) (k - 1) = real_of_int (B ^ nat (k - 1))"
    by (simp add: js_pow_def)
  have "0 \<le> D * B ^ nat (k - 1)" using D pos by simp
  then have "\<bar>D * B ^ nat (k - 1)\<bar> \<le> 2 ^ 53" using bound by linarith
  then have "toDouble (real_of_int (D * B ^ nat (k - 1))) = real_of_int (D * B ^ nat (k - 1))"
    by (rule toDouble_of_int)
  then show ?thesis
    unfolding backoffDelay_def p js_mul_def by simp
qed

lemma backoffDelay_geometric:
  assumes k: "1 \<le> k" and D: "1 \<le> D" and B: "1 \<le> B"
    and bound: "D * B ^ nat k \<le> 2 ^ 53"
  shows "backoffDelay (of_int D) (of_int B) k = of_int (D * B ^ nat (k - 1))"
    and "backoffDelay (of_int D) (of_int B) (k + 1)
           = of_int B * backoffDelay (of_int D) (of_int B) k"
proof -
  have nk: "nat k = Suc (nat (k - 1))" using k by simp
  have "0 \<le> D * B ^ nat (k - 1)" using D B by simp
  then have "D * B ^ nat (k - 1) * 1 \<le> D * B ^ nat (k - 1) * B"
    using B by (intro mult_left_mono) simp_all
  then have "D * B ^ nat (k - 1) \<le> D * B ^ nat k"
    by (simp add: nk mult_ac)
  then have low: "D * B ^ nat (k - 1) \<le> 2 ^ 53" using bound by linarith
  show a: "backoffDelay (of_int D) (of_int B) k = of_int (D * B ^ nat (k - 1))"
    using k D B low by (rule backoffDelay_exact)
  have "backoffDelay (of_int D) (of_int B) (k + 1) = of_int (D * B ^ nat (k + 1 - 1))"
    using k D B bound by (intro backoffDelay_exact) simp_all
  then show "backoffDelay (of_int D) (of_int B) (k + 1)
           = of_int B * backoffDelay (of_int D) (of_int B) k"
    unfolding a by (simp add: nk)
qed

text \<open>
  Claim C8, as amended. Let the supplied \<open>maxAttempts\<close> be a whole number \<open>n \<ge> 1\<close> (or absent
  or 0, which count as 3), let \<open>d\<close> and \<open>b\<close> be the supplied \<open>delay\<close> and \<open>backoff\<close> (absent or 0
  count as 1000 and 1), and let the observer, when there is one, return normally. Then
  \<open>retry\<close> invokes the operation at most \<open>n\<close> times. If all \<open>n\<close> attempts fail, it raises the
  error of attempt \<open>n\<close>, the last one observed, when that value is truthy, and a new
  \<open>Error('Max retries exceeded')\<close> when it is falsy; what it did is exactly: for each attempt
  \<open>k < n\<close> in turn, invoke the operation, call the observer with \<open>k\<close> and the error of
  attempt \<open>k\<close>, wait \<open>d * Math.pow(b, k - 1)\<close>; then invoke the operation the \<open>n\<close>-th time. If
  attempt \<open>j \<le> n\<close> is the first to succeed, it returns that result after the same rounds for
  \<open>k < j\<close>. The wait is computed in double precision: it is the same for every \<open>k\<close> when
  \<open>b = 1\<close>, it never decreases when \<open>b \<ge> 1\<close> and \<open>d \<ge> 0\<close>, and for whole numbers \<open>d\<close> and \<open>b\<close>
  it is exactly \<open>d * b ^ (k - 1)\<close>, each wait \<open>b\<close> times the one before, as long as the product
  stays within \<open>2 ^ 53\<close>.
\<close>

theorem retry_spec:
  fixes fn :: "int \<Rightarrow> jsvalue + 'a"
  assumes ma: "maxAttempts options = Some (real_of_int n) \<and> 1 \<le> n
               \<or> (maxAttempts options = None \<or> maxAttempts options = Some 0) \<and> n = 3"
    and dl: "delay options = Some d \<and> d \<noteq> 0
               \<or> (delay options = None \<or> delay options = Some 0) \<and> d = 1000"
    and bo: "backoff options = Some b \<and> b \<noteq> 0
               \<or> (backoff options = None \<or> backoff options = Some 0) \<and> b = 1"
    and quiet: "\<forall>cb k e. onRetry options = Some cb \<longrightarrow> cb k e = None"
  shows "length (filter isInvoke (snd (retry fn options))) \<le> nat n
       \<and> ((\<forall>k. 1 \<le> k \<and> k \<le> n \<longrightarrow> fn k = Inl (err k)) \<longrightarrow>
            retry fn options
              = (Inl (if truthy (err n) then Thrown (err n) else MaxRetriesExceeded),
                 concat (map (\<lambda>k. retry_round (onRetry options) d b k (err k)) [1..n - 1])
                   @ [Invoke n]))
       \<and> (1 \<le> j \<and> j \<le> n \<and> (\<forall>k. 1 \<le> k \<and> k < j \<longrightarrow> fn k = Inl (err k)) \<and> fn j = Inr v \<longrightarrow>
            retry fn options
              = (Inr v,
                 concat (map (\<lambda>k. retry_round (onRetry options) d b k (err k)) [1..j - 1])
                   @ [Invoke j]))
       \<and> retry_round observer d' b' k e
            = Invoke k # (case observer of None \<Rightarrow> [] | Some cb \<Rightarrow> [OnRetry k e])
                @ [Sleep (js_mul d' (js_pow b' (k - 1)))]
       \<and> backoffDelay d' 1 k = backoffDelay d' 1 1
       \<and> (1 \<le> k \<and> 0 \<le> d' \<and> 1 \<le> b' \<longrightarrow> backoffDelay d' b' k \<le> backoffDelay d' b' (k + 1))
       \<and> (1 \<le> k \<and> 1 \<le> D \<and> 1 \<le> B \<and> D * B ^ nat k \<le> 2 ^ 53 \<longrightarrow>
            backoffDelay (of_int D) (of_int B) k = of_int (D * B ^ nat (k - 1))
          \<and> backoffDelay (of_int D) (of_int B) (k + 1)
              = of_int B * backoffDelay (of_int D) (of_int B) k)"
proof -
  have n: "maxAttemptsOf options = real_of_int n" and n1: "1 \<le> n"
    using ma by (auto simp: maxAttemptsOf_def)
  have d: "delayOf options = d"
    using dl by (auto simp: delayOf_def)
  have b: "backoffOf options = b"
    using bo by (auto simp: backoffOf_def)
  have r: "retry fn options = retry_loop fn (real_of_int n) d b (onRetry options) 1 None"
    by (simp add: retry_def n d b)
  have count: "length (filter isInvoke (snd (retry fn options))) \<le> nat n"
    using retry_loop_invocations [of fn "real_of_int n" d b "onRetry options" 1 None]
    by (simp add: r)
  have allfail: "retry fn options
              = (Inl (if truthy (err n) then Thrown (err n) else MaxRetriesExceeded),
                 concat (map (\<lambda>k. retry_round (onRetry options) d b k (err k)) [1..n - 1])
                   @ [Invoke n])"
    if "\<forall>k. 1 \<le> k \<and> k \<le> n \<longrightarrow> fn k = Inl (err k)"
    unfolding r using quiet that n1 by (intro retry_loop_trace) (auto simp: raiseLast_def)
  have success: "retry fn options
              = (Inr v,
                 concat (map (\<lambda>k. retry_round (onRetry options) d b k (err k)) [1..j - 1])
                   @ [Invoke j])"
    if "1 \<le> j \<and> j \<le> n \<and> (\<forall>k. 1 \<le> k \<and> k < j \<longrightarrow> fn k = Inl (err k)) \<and> fn j = Inr v"
    unfolding r using quiet that by (intro retry_loop_trace) auto
  have round: "retry_round observer d' b' k e
            = Invoke k # (case observer of None \<Rightarrow> [] | Some cb \<Rightarrow> [OnRetry k e])
                @ [Sleep (js_mul d' (js_pow b' (k - 1)))]"
    by (simp add: retry_round_def backoffDelay_def)
  have const: "backoffDelay d' 1 k = backoffDelay d' 1 1"
    by (simp only: backoffDelay_constant)
  have grows: "1 \<le> k \<and> 0 \<le> d' \<and> 1 \<le> b' \<longrightarrow> backoffDelay d' b' k \<le> backoffDelay d' b' (k + 1)"
    by (simp add: backoffDelay_mono)
  have geo: "backoffDelay (of_int D) (of_int B) k = of_int (D * B ^ nat (k - 1))
          \<and> backoffDelay (of_int D) (of_int B) (k + 1)
              = of_int B * backoffDelay (of_int D) (of_int B) k"
    if "1 \<le> k \<and> 1 \<le> D \<and> 1 \<le> B \<and> D * B ^ nat k \<le> 2 ^ 53"
    using backoffDelay_geometric [of k D B] that by simp
  show ?thesis
    using count allfail success round const grows geo by blast
qed

theorem retry_spec_witness:
  "retry (\<lambda>k. Inl (JStr ''boom'') :: jsvalue + nat)
      \<lparr>maxAttempts = None, delay = Some 100, backoff = Some 2, onRetry = Some (\<lambda>k e. None)\<rparr>
     = (Inl (Thrown (JStr ''boom'')),
        [Invoke 1, OnRetry 1 (JStr ''boom''), Sleep 100, Invoke 2, OnRetry 2 (JStr ''boom''),
         Sleep 200, Invoke 3])
   \<and> retry (\<lambda>k. if k < 2 then Inl (JStr ''boom'') else Inr (7::nat))
      \<lparr>maxAttempts = Some 5, delay = None, backoff = None, onRetry = None\<rparr>
     = (Inr 7, [Invoke 1, Sleep 1000, Invoke 2])
   \<and> backoffDelay 100 2 3 = 400
   \<and> backoffDelay 100 2 (3 + 1) = 2 * backoffDelay 100 2 3"
  using retry_spec [where options = "\<lparr>maxAttempts = None, delay = Some 100, backoff = Some 2,
        onRetry = Some (\<lambda>k e. None)\<rparr>"
      and fn = "\<lambda>k. Inl (JStr ''boom'') :: jsvalue + nat" and err = "\<lambda>k. JStr ''boom''"
      and n = 3 and d = 100 and b = 2 and k = 3 and D = 100 and B = 2]
    retry_spec [where options = "\<lparr>maxAttempts = Some 5, delay = None, backoff = None,
        onRetry = None\<rparr>"
      and fn = "\<lambda>k. if k < 2 then Inl (JStr ''boom'') else Inr (7::nat)"
      and err = "\<lambda>k. JStr ''boom''" and n = 5 and d = 1000 and b = 1 and j = 2 and v = 7]
  by (simp add: retry_round_def backoffDelay_def js_mul_def js_pow_def upto.simps)

text \<open>
  The claim as stated fails in four ways. An operation that rejects with a falsy value (the
  empty string) every time ends in \<open>Error('Max retries exceeded')\<close>, not in the last error
  observed. An observer that throws ends the retry after the first attempt, with the
  observer's exception and without a wait. With \<open>maxAttempts = -1\<close> no attempt is made and
  the error raised is not one that was observed. And with the smallest positive double as
  delay and a backoff of 1.25 the second wait is the same as the first: the product
  rounds back to the delay.
\<close>

theorem retry_counterexample:
  "retry (\<lambda>k. Inl (JStr []) :: jsvalue + nat)
      \<lparr>maxAttempts = None, delay = None, backoff = None, onRetry = None\<rparr>
     = (Inl MaxRetriesExceeded, [Invoke 1, Sleep 1000, Invoke 2, Sleep 1000, Invoke 3])
   \<and> retry (\<lambda>k. Inl (JStr ''boom'') :: jsvalue + nat)
      \<lparr>maxAttempts = None, delay = None, backoff = None,
       onRetry = Some (\<lambda>k e. Some (JStr ''observer''))\<rparr>
     = (Inl (Thrown (JStr ''observer'')), [Invoke 1, OnRetry 1 (JStr ''boom'')])
   \<and> retry (\<lambda>k. Inl (JStr ''boom'') :: jsvalue + nat)
      \<lparr>maxAttempts = Some (- 1), delay = None, backoff = None, onRetry = None\<rparr>
     = (Inl MaxRetriesExceeded, [])
   \<and> backoffDelay (2 powi (- 1074)) (5 / 4) 2 = backoffDelay (2 powi (- 1074)) (5 / 4) 1"
proof -
  have a: "retry (\<lambda>k. Inl (JStr []) :: jsvalue + nat)
      \<lparr>maxAttempts = None, delay = None, backoff = None, onRetry = None\<rparr>
     = (Inl MaxRetriesExceeded, [Invoke 1, Sleep 1000, Invoke 2, Sleep 1000, Invoke 3])"
    by (simp add: retry_def maxAttemptsOf_def delayOf_def backoffOf_def retry_loop.simps
        raiseLast_def backoffDelay_def js_mul_def js_pow_def)
  have b: "retry (\<lambda>k. Inl (JStr ''boom'') :: jsvalue + nat)
      \<lparr>maxAttempts = None, delay = None, backoff = None,
       onRetry = Some (\<lambda>k e. Some (JStr ''observer''))\<rparr>
     = (Inl (Thrown (JStr ''observer'')), [Invoke 1, OnRetry 1 (JStr ''boom'')])"
    by (simp add: retry_def maxAttemptsOf_def delayOf_def backoffOf_def retry_loop.simps)
  have c: "retry (\<lambda>k. Inl (JStr ''boom'') :: jsvalue + nat)
      \<lparr>maxAttempts = Some (- 1), delay = None, backoff = None, onRetry = None\<rparr>
     = (Inl MaxRetriesExceeded, [])"
    by (simp add: retry_def maxAttemptsOf_def delayOf_def backoffOf_def retry_loop.simps
        raiseLast_def)
  define x where "x = (2::real) powi (- 1074)"
  have xpos: "0 < x" by (simp add: x_def zero_less_power_int)
  have one: "toDouble x = x"
    unfolding x_def using toDouble_exact [of 1 "- 1074"] by simp
  have q: "toDouble (5 / 4) = 5 / 4"
    using toDouble_exact [of 5 "- 2"] by simp
  have lo: "2 powi (- 1074) \<le> \<bar>x * (5 / 4)\<bar>"
    using xpos by (simp add: x_def)
  have "x * (5 / 4) < x * 2" using xpos by simp
  also have "x * 2 = 2 powi (- 1074 + 1)"
    unfolding x_def using power_int_add [of "2::real" "- 1074" 1] by simp
  finally have hi: "\<bar>x * (5 / 4)\<bar> < 2 powi (- 1074 + 1)"
    using xpos by simp
  have m: "max (- 1074 - 52) (- 1074) = (- 1074 :: int)" by simp
  have r1: "roundHalfEven (5 / 4) = 1"
    using roundHalfEven_near [of 1 "5 / 4"] by simp
  have dv: "x * (5 / 4) / x = 5 / 4" using xpos by simp
  have "roundHalfEven (x * (5 / 4) / 2 powi (max (- 1074 - 52) (- 1074))) = 1"
    unfolding m x_def [symmetric] dv by (rule r1)
  then have "toDouble (x * (5 / 4)) = of_int 1 * 2 powi (max (- 1074 - 52) (- 1074))"
    using lo hi by (intro toDouble_eval)
  then have two: "toDouble (x * (5 / 4)) = x"
    unfolding m x_def [symmetric] by simp
  have p0: "js_pow (5 / 4) (1 - 1) = 1" by (simp add: js_pow_def)
  have p1: "js_pow (5 / 4) (2 - 1) = 5 / 4" by (simp add: js_pow_def q)
  have "backoffDelay x (5 / 4) 2 = x"
    unfolding backoffDelay_def p1 js_mul_def two ..
  moreover have "backoffDelay x (5 / 4) 1 = x"
    unfolding backoffDelay_def p0 js_mul_def by (simp add: one)
  ultimately have d: "backoffDelay (2 powi (- 1074)) (5 / 4) 2
                        = backoffDelay (2 powi (- 1074)) (5 / 4) 1"
    unfolding x_def by simp
  show ?thesis using a b c d by blast
qed

section \<open>Unit normalisation (BaseProviderService, apps/api/src/services/providers/base.ts)\<close>

text \<open>
  \<open>unitMap\<close> is the object literal of \<open>normalizeQuantity\<close>, as the list of its own keys;
  \<open>unitMap[unit] || quantity\<close> falls back to the quantity for a key that is missing and for
  an entry that is 0. A unit that names a member of \<open>Object.prototype\<close> (\<open>toString\<close>,
  \<open>constructor\<close>, ...) would find that member instead of a number; such units are outside
  the model.
\<close>

definition unitMap :: "real \<Rightarrow> (string \<times> real) list" where
  "unitMap quantity =
     [(''g'', quantity), (''ml'', quantity), (''kg'', js_mul quantity 1000),
      (''l'', js_mul quantity 1000), (''pieces'', quantity)]"

definition normalizeQuantity :: "real \<Rightarrow> string \<Rightarrow> real" where
  "normalizeQuantity quantity u =
     (case map_of (unitMap quantity) u of
        None \<Rightarrow> quantity
      | Some x \<Rightarrow> if x = 0 then quantity else x)"

definition calculatePricePerUnit :: "real \<Rightarrow> real \<Rightarrow> string \<Rightarrow> real" where
  "calculatePricePerUnit price quantity u =
     (let baseQty = normalizeQuantity quantity u;
          divisor = (if u \<in> set [''ml'', ''g''] then js_div baseQty 100 else quantity)
      in if divisor > 0 then js_div price divisor else 0)"

subsection \<open>Properties of the unit normalisation\<close>

lemma normalizeQuantity_units:
  "normalizeQuantity q ''g'' = q" "normalizeQuantity q ''ml'' = q"
  "normalizeQuantity q ''kg'' = (if js_mul q 1000 = 0 then q else js_mul q 1000)"
  "normalizeQuantity q ''l'' = (if js_mul q 1000 = 0 then q else js_mul q 1000)"
  "normalizeQuantity q ''pieces'' = q"
  by (simp_all add: normalizeQuantity_def unitMap_def)

text \<open>
  Claim C3, at the input where the code departs from it. \<open>normalizeQuantity\<close> turns 1 kg
  into 1000 base units and 2 l into 2000, but \<open>calculatePricePerUnit\<close> divides by
  \<open>baseQty / 100\<close> only for the units \<open>g\<close> and \<open>ml\<close> and by the raw quantity for every other
  unit: a price of 100 for 1 kg gives 100, the price per kilogram, where the price per 100
  base units is 10; a price of 100 for 2 l gives 50, where the price per 100 base units is 5.
\<close>

theorem calculatePricePerUnit_kilogram:
  "normalizeQuantity 1 ''kg'' = 1000
   \<and> calculatePricePerUnit 100 1 ''kg'' = 100
   \<and> 100 / (normalizeQuantity 1 ''kg'' / 100) = 10
   \<and> normalizeQuantity 2 ''l'' = 2000
   \<and> calculatePricePerUnit 100 2 ''l'' = 50
   \<and> 100 / (normalizeQuantity 2 ''l'' / 100) = 5"
  by (simp add: calculatePricePerUnit_def normalizeQuantity_units Let_def js_mul_def js_div_def)

text \<open>
  For the units \<open>g\<close> and \<open>ml\<close> the base quantity is the quantity and the result is
  \<open>price / (baseQuantity / 100)\<close>; for \<open>pieces\<close> it is \<open>price / quantity\<close>; each division is
  rounded to a double, and in both cases a divisor that is not positive gives 0. 500 g is
  500 base units, 1 kg is 1000, and a price of 100 for 500 g gives 20.
\<close>

theorem calculatePricePerUnit_base_units:
  "(u = ''g'' \<or> u = ''ml'' \<longrightarrow>
      normalizeQuantity q u = q
    \<and> calculatePricePerUnit p q u
        = (if js_div (normalizeQuantity q u) 100 > 0
           then js_div p (js_div (normalizeQuantity q u) 100) else 0))
   \<and> calculatePricePerUnit p q ''pieces'' = (if q > 0 then js_div p q else 0)
   \<and> normalizeQuantity 500 ''g'' = 500
   \<and> normalizeQuantity 1 ''kg'' = 1000
   \<and> calculatePricePerUnit 100 500 ''g'' = 20"
  by (auto simp: calculatePricePerUnit_def normalizeQuantity_units Let_def js_mul_def js_div_def)

theorem calculatePricePerUnit_base_units_witness:
  "calculatePricePerUnit 90 250 ''ml'' = 36 \<and> normalizeQuantity 250 ''ml'' = 250
   \<and> calculatePricePerUnit 90 0 ''g'' = 0"
proof -
  have half: "toDouble (5 / 2) = 5 / 2"
    using toDouble_exact [of 5 "- 1"] by simp
  show ?thesis
    using calculatePricePerUnit_base_units [of "''ml''" 250 90]
      calculatePricePerUnit_base_units [of "''g''" 0 90]
    by (simp add: js_div_def half)
qed

section \<open>Aggregator (aggregatorService, apps/api/src/services/aggregator.ts)\<close>

datatype Platform = blinkit | zepto | instamart | bigbasket | zomato

datatype Badge = Cheapest | Fastest | BestValue

record Product =
  product_id :: string
  product_name :: string
  product_brand :: string
  product_quantity :: real
  product_unit :: string
  product_baseQuantity :: real
  product_image :: string
  product_platform :: Platform
  product_url :: string

record PriceComparison =
  platform :: Platform
  product :: Product
  price :: real
  originalPrice :: real
  discount :: real
  discountPercentage :: real
  deliveryFee :: real
  platformFee :: real
  effectivePrice :: real
  pricePerUnit :: real
  deliveryETA :: string
  inStock :: bool
  isCheapest :: bool
  isFastest :: bool
  badge :: "Badge option"
  lastUpdated :: int

text \<open>
  The outcome of one provider's \<open>search\<close> promise as \<open>Promise.allSettled\<close> reports it, and a
  provider as the function from the query to that outcome. \<open>search\<close> is declared to return
  a promise; a provider whose \<open>search\<close> throws before it returns one is outside the model.
\<close>

datatype 'a settled = Fulfilled 'a | Rejected string

type_synonym provider = "string \<Rightarrow> real \<Rightarrow> real \<Rightarrow> PriceComparison list settled"

fun isFulfilled :: "'a settled \<Rightarrow> bool" where
  "isFulfilled (Fulfilled v) = True"
| "isFulfilled (Rejected reason) = False"

fun settled_value :: "'a list settled \<Rightarrow> 'a list" where
  "settled_value (Fulfilled v) = v"
| "settled_value (Rejected reason) = []"

datatype js_error = TypeError

text \<open>
  \<open>Array.prototype.reduce\<close> without an initial value: a \<open>TypeError\<close> on the empty array,
  otherwise a left fold that starts from the first element.
\<close>

definition reduce :: "('a \<Rightarrow> 'a \<Rightarrow> 'a) \<Rightarrow> 'a list \<Rightarrow> js_error + 'a" where
  "reduce f xs = (case xs of [] \<Rightarrow> Inl TypeError | x # rest \<Rightarrow> Inr (foldl f x rest))"

text \<open>
  \<open>parseInt\<close> with no radix: leading white space, an optional sign, an optional \<open>0x\<close>
  prefix, then the longest run of digits; \<open>None\<close> stands for \<open>NaN\<close>. A comparison with
  \<open>NaN\<close> is false. A string is a list of code units below 256; among those the white
  space of ECMAScript is tab, line feed, vertical tab, form feed, carriage return, space
  and the no-break space.
\<close>

definition isWhiteSpace :: "char \<Rightarrow> bool" where
  "isWhiteSpace c = ((of_char c :: nat) \<in> set [9, 10, 11, 12, 13, 32, 160])"

definition digitValue :: "nat \<Rightarrow> char \<Rightarrow> nat option" where
  "digitValue radix c =
     (let n = (of_char c :: nat);
          v = (if 48 \<le> n \<and> n \<le> 57 then Some (n - 48)
               else if 97 \<le> n \<and> n \<le> 102 then Some (n - 87)
               else if 65 \<le> n \<and> n \<le> 70 then Some (n - 55)
               else None)
      in case v of None \<Rightarrow> None | Some k \<Rightarrow> if k < radix then Some k else None)"

definition parseInt :: "string \<Rightarrow> int option" where
  "parseInt s =
     (let s1 = dropWhile isWhiteSpace s;
          negative = (s1 \<noteq> [] \<and> hd s1 = CHR ''-'');
          s2 = (if s1 \<noteq> [] \<and> (hd s1 = CHR ''-'' \<or> hd s1 = CHR ''+'') then tl s1 else s1);
          hex = (length s2 \<ge> 2 \<and> hd s2 = CHR ''0''
                   \<and> (hd (tl s2) = CHR ''x'' \<or> hd (tl s2) = CHR ''X''));
          radix = (if hex then 16 else 10);
          s3 = (if hex then tl (tl s2) else s2);
          digits = takeWhile (\<lambda>c. digitValue radix c \<noteq> None) s3;
          magnitude = foldl (\<lambda>acc c. acc * radix + the (digitValue radix c)) 0 digits
      in if digits = [] then None
         else Some (if negative then - int magnitude else int magnitude))"

fun js_less :: "int option \<Rightarrow> int option \<Rightarrow> bool" where
  "js_less (Some a) (Some b) = (a < b)"
| "js_less a b = False"

text \<open>
  \<open>searchAll\<close>. The array holds object references and the source marks the objects in
  place and compares them by identity (\<open>fastest !== allResults[0]\<close>); each slot of the
  array is taken to hold an object of its own, so identity is the index, and the fold
  runs over the elements paired with their indices. \<open>Array.prototype.sort\<close> is stable, so
  with this comparator it is the stable sort by \<open>effectivePrice\<close>.
\<close>

definition allResults :: "string \<Rightarrow> real \<Rightarrow> real \<Rightarrow> provider list \<Rightarrow> PriceComparison list" where
  "allResults query lat lng providers =
     concat (map settled_value (filter isFulfilled (map (\<lambda>p. p query lat lng) providers)))"

definition fasterOf ::
  "nat \<times> PriceComparison \<Rightarrow> nat \<times> PriceComparison \<Rightarrow> nat \<times> PriceComparison" where
  "fasterOf prev current =
     (if js_less (parseInt (deliveryETA (snd current))) (parseInt (deliveryETA (snd prev)))
      then current else prev)"

definition searchAll ::
  "string \<Rightarrow> real \<Rightarrow> real \<Rightarrow> provider list \<Rightarrow> js_error + PriceComparison list" where
  "searchAll query lat lng providers =
     (let ranked = sort_key effectivePrice (allResults query lat lng providers);
          marked = (if length ranked > 0
                    then ranked[0 := (ranked ! 0)\<lparr>isCheapest := True, badge := Some Cheapest\<rparr>]
                    else ranked)
      in case reduce fasterOf (zip [0..<length marked] marked) of
           Inl e \<Rightarrow> Inl e
         | Inr (i, fastest) \<Rightarrow>
             Inr (if i \<noteq> 0
                  then marked[i := (marked ! i)\<lparr>isFastest := True, badge := Some Fastest\<rparr>]
                  else marked))"

text \<open>A quote without the marks \<open>searchAll\<close> puts on it.\<close>

definition unbadged :: "PriceComparison \<Rightarrow> PriceComparison" where
  "unbadged p = p\<lparr>isCheapest := False, isFastest := False, badge := None\<rparr>"

text \<open>A quote with the given platform, effective price and delivery ETA, for examples.\<close>

definition exampleQuote :: "Platform \<Rightarrow> real \<Rightarrow> string \<Rightarrow> PriceComparison" where
  "exampleQuote pf amount eta =
     \<lparr>platform = pf,
      product = \<lparr>product_id = ''1'', product_name = ''Amul Butter'', product_brand = ''Amul'',
                 product_quantity = 500, product_unit = ''g'', product_baseQuantity = 500,
                 product_image = [], product_platform = pf, product_url = []\<rparr>,
      price = amount, originalPrice = amount, discount = 0, discountPercentage = 0,
      deliveryFee = 0, platformFee = 0, effectivePrice = amount, pricePerUnit = amount / 5,
      deliveryETA = eta, inStock = True, isCheapest = False, isFastest = False,
      badge = None, lastUpdated = 0\<rparr>"

subsection \<open>Properties of the aggregator\<close>

lemma allResults_all_rejected:
  "allResults query lat lng (map (\<lambda>reason q la lo. Rejected reason) reasons) = []"
  by (induction reasons) (simp_all add: allResults_def)

lemma searchAll_no_results:
  "allResults query lat lng providers = [] \<Longrightarrow> searchAll query lat lng providers = Inl TypeError"
  by (simp add: searchAll_def reduce_def)

lemma reduce_nonempty:
  "xs \<noteq> [] \<Longrightarrow> \<exists>y. reduce f xs = Inr y"
  by (cases xs) (simp_all add: reduce_def)

lemma searchAll_some_results:
  assumes "allResults query lat lng providers \<noteq> []"
  shows "\<exists>i. searchAll query lat lng providers =
           Inr (let ranked = sort_key effectivePrice (allResults query lat lng providers);
                    marked = ranked[0 := (ranked ! 0)\<lparr>isCheapest := True, badge := Some Cheapest\<rparr>]
                in if i \<noteq> 0
                   then marked[i := (marked ! i)\<lparr>isFastest := True, badge := Some Fastest\<rparr>]
                   else marked)"
proof -
  let ?ranked = "sort_key effectivePrice (allResults query lat lng providers)"
  let ?marked = "?ranked[0 := (?ranked ! 0)\<lparr>isCheapest := True, badge := Some Cheapest\<rparr>]"
  have ne: "?ranked \<noteq> []"
    using assms by (metis length_sort length_0_conv)
  then have "zip [0..<length ?marked] ?marked \<noteq> []"
    by (cases ?ranked) simp_all
  then obtain y where "reduce fasterOf (zip [0..<length ?marked] ?marked) = Inr y"
    using reduce_nonempty by blast
  then show ?thesis
    using ne by (cases y) (auto simp: searchAll_def Let_def)
qed

lemma map_update_same:
  assumes "\<And>x. f (g x) = f x"
  shows "map f (xs[i := g (xs ! i)]) = map f xs"
proof (cases "i < length xs")
  case True
  then have "(map f xs)[i := f (xs ! i)] = map f xs"
    by (metis list_update_id nth_map)
  then show ?thesis by (simp add: map_update assms)
next
  case False
  then have "xs[i := g (xs ! i)] = xs" by (simp add: list_update_beyond)
  then show ?thesis by simp
qed

text \<open>
  Claim C1, at the input where the code departs from it. When every provider's call
  rejects, whatever the reasons and however many providers there are (none included),
  \<open>searchAll\<close> does not return the empty list: the fold that selects the fastest quote
  runs on the empty array and raises a \<open>TypeError\<close>.
\<close>

theorem searchAll_all_rejected:
  "searchAll query lat lng (map (\<lambda>reason q la lo. Rejected reason) reasons) = Inl TypeError"
  by (rule searchAll_no_results) (rule allResults_all_rejected)

text \<open>
  Claim C2, at the input where the code departs from it. \<open>searchAll\<close> raises a \<open>TypeError\<close>
  exactly when the merged result set is empty: the fold for the fastest quote is
  attempted on the empty array and nothing is returned. That is the case for an empty
  provider list and for a provider that answers with no quotes.
\<close>

theorem searchAll_empty_result_set:
  "(searchAll query lat lng providers = Inl TypeError)
     = (allResults query lat lng providers = [])
   \<and> searchAll query lat lng [] = Inl TypeError
   \<and> searchAll query lat lng [\<lambda>q la lo. Fulfilled []] = Inl TypeError"
proof -
  have "searchAll query lat lng providers \<noteq> Inl TypeError"
    if "allResults query lat lng providers \<noteq> []"
    using searchAll_some_results [OF that] by auto
  then have "(searchAll query lat lng providers = Inl TypeError)
     = (allResults query lat lng providers = [])"
    using searchAll_no_results [of query lat lng providers] by blast
  moreover have "searchAll query lat lng [] = Inl TypeError"
    by (rule searchAll_no_results) (simp add: allResults_def)
  moreover have "searchAll query lat lng [\<lambda>q la lo. Fulfilled []] = Inl TypeError"
    by (rule searchAll_no_results) (simp add: allResults_def)
  ultimately show ?thesis by blast
qed

text \<open>
  When the merged result set is not empty, \<open>searchAll\<close> returns a list. Leaving the marks
  (\<open>isCheapest\<close>, \<open>isFastest\<close>, \<open>badge\<close>) aside, it is the stable sort by \<open>effectivePrice\<close> of the
  concatenated quotes of the providers whose call succeeded, so it holds exactly those
  quotes in ascending order of \<open>effectivePrice\<close>; its first element is marked cheapest.
\<close>

theorem searchAll_ranked:
  assumes "allResults query lat lng providers \<noteq> []"
  shows "\<exists>rs. searchAll query lat lng providers = Inr rs
           \<and> map unbadged rs
               = map unbadged (sort_key effectivePrice (allResults query lat lng providers))
           \<and> mset (map unbadged rs) = mset (map unbadged (allResults query lat lng providers))
           \<and> sorted (map effectivePrice rs)
           \<and> isCheapest (hd rs) \<and> badge (hd rs) = Some Cheapest"
proof -
  define ranked where "ranked = sort_key effectivePrice (allResults query lat lng providers)"
  define marked where
    "marked = ranked[0 := (ranked ! 0)\<lparr>isCheapest := True, badge := Some Cheapest\<rparr>]"
  obtain i where res: "searchAll query lat lng providers =
      Inr (if i \<noteq> 0 then marked[i := (marked ! i)\<lparr>isFastest := True, badge := Some Fastest\<rparr>]
           else marked)"
    using searchAll_some_results [OF assms] unfolding Let_def ranked_def marked_def by blast
  define rs where
    "rs = (if i \<noteq> 0 then marked[i := (marked ! i)\<lparr>isFastest := True, badge := Some Fastest\<rparr>]
           else marked)"
  have ne: "ranked \<noteq> []"
    using assms unfolding ranked_def by (metis length_sort length_0_conv)
  have m: "map unbadged marked = map unbadged ranked"
    unfolding marked_def by (rule map_update_same) (simp add: unbadged_def)
  have f: "map unbadged (marked[i := (marked ! i)\<lparr>isFastest := True, badge := Some Fastest\<rparr>])
          = map unbadged marked"
    by (rule map_update_same) (simp add: unbadged_def)
  have core: "map unbadged rs = map unbadged ranked"
    unfolding rs_def using m f by simp
  have "mset (map unbadged ranked) = mset (map unbadged (allResults query lat lng providers))"
    unfolding ranked_def by simp
  then have perm: "mset (map unbadged rs) = mset (map unbadged (allResults query lat lng providers))"
    using core by simp
  have "map effectivePrice rs = map effectivePrice (map unbadged rs)"
    by (simp add: unbadged_def comp_def)
  also have "\<dots> = map effectivePrice (map unbadged ranked)"
    using core by simp
  also have "\<dots> = map effectivePrice ranked"
    by (simp add: unbadged_def comp_def)
  finally have srt: "sorted (map effectivePrice rs)"
    unfolding ranked_def by (simp only: sorted_sort_key)
  have "marked ! 0 = (ranked ! 0)\<lparr>isCheapest := True, badge := Some Cheapest\<rparr>"
    using ne unfolding marked_def by simp
  moreover have "rs ! 0 = marked ! 0"
    unfolding rs_def by simp
  moreover have "rs \<noteq> []"
    using ne unfolding rs_def marked_def by simp
  ultimately have cheap: "isCheapest (hd rs) \<and> badge (hd rs) = Some Cheapest"
    by (simp add: hd_conv_nth)
  show ?thesis
    using res core perm srt cheap unfolding rs_def [symmetric] ranked_def by blast
qed

lemma parse12: "parseInt ''12 min'' = Some 12"
  by (simp add: parseInt_def digitValue_def isWhiteSpace_def Let_def)

lemma parse18: "parseInt ''18 min'' = Some 18"
  by (simp add: parseInt_def digitValue_def isWhiteSpace_def Let_def)

theorem searchAll_ranked_witness:
  "allResults ''Amul Butter 500g'' 28 77
      [\<lambda>q la lo. Fulfilled [exampleQuote zepto 255 ''12 min''],
       \<lambda>q la lo. Rejected ''timeout'',
       \<lambda>q la lo. Fulfilled [exampleQuote blinkit 245 ''18 min'']]
     = [exampleQuote zepto 255 ''12 min'', exampleQuote blinkit 245 ''18 min'']
   \<and> searchAll ''Amul Butter 500g'' 28 77
      [\<lambda>q la lo. Fulfilled [exampleQuote zepto 255 ''12 min''],
       \<lambda>q la lo. Rejected ''timeout'',
       \<lambda>q la lo. Fulfilled [exampleQuote blinkit 245 ''18 min'']]
     = Inr [(exampleQuote blinkit 245 ''18 min'')\<lparr>isCheapest := True, badge := Some Cheapest\<rparr>,
            (exampleQuote zepto 255 ''12 min'')\<lparr>isFastest := True, badge := Some Fastest\<rparr>]"
proof -
  let ?ps = "[\<lambda>q la lo. Fulfilled [exampleQuote zepto 255 ''12 min''],
       \<lambda>q la lo. Rejected ''timeout'',
       \<lambda>q la lo. Fulfilled [exampleQuote blinkit 245 ''18 min'']] :: provider list"
  have a: "allResults ''Amul Butter 500g'' 28 77 ?ps
     = [exampleQuote zepto 255 ''12 min'', exampleQuote blinkit 245 ''18 min'']"
    by (simp add: allResults_def)
  have e: "effectivePrice (exampleQuote pf amount eta) = amount"
    "deliveryETA (exampleQuote pf amount eta) = eta" for pf amount eta
    by (simp_all add: exampleQuote_def)
  have s: "searchAll ''Amul Butter 500g'' 28 77 ?ps
     = Inr [(exampleQuote blinkit 245 ''18 min'')\<lparr>isCheapest := True, badge := Some Cheapest\<rparr>,
            (exampleQuote zepto 255 ''12 min'')\<lparr>isFastest := True, badge := Some Fastest\<rparr>]"
    unfolding searchAll_def a
    by (simp add: e reduce_def fasterOf_def parse12 parse18 upt_rec)
  from searchAll_ranked [of "''Amul Butter 500g''" 28 77 ?ps] a
  obtain rs where "searchAll ''Amul Butter 500g'' 28 77 ?ps = Inr rs" by auto
  then show ?thesis using a s by simp
qed

end
